theory Spec2Isabelle
  imports Main
begin

section \<open>Python values\<close>

text \<open>
  The exceptions the program can end with. \<open>APIError\<close> is what a call into the
  probe library (pynrfjprog) raises; \<open>SystemExit\<close> is what argparse's \<open>parser.error\<close>
  raises; \<open>ValueError\<close> is what the thread pool raises for a pool of no threads;
  \<open>IOError\<close> is what the hex reader raises for an unreadable file.
\<close>

datatype error =
  APIError | AssertionError | IndexError | IOError | KeyError
  | SystemExit | ValueError | ZeroDivisionError

text \<open>
  A Python string object. The source compares the family with \<open>is\<close>, which is object
  identity, so the model keeps the identity of a string beside its characters:
  \<open>Literal s\<close> is the interned constant that a literal \<open>'s'\<close> of the source denotes (one
  object per text), \<open>Argv i s\<close> is the string object that the interpreter built at run
  time from the \<open>i\<close>-th option of the command line. Two objects are identical exactly
  when they are equal as values of this datatype; in particular a command-line string
  of several characters is never the object of a literal, whatever its text. This is
  the interpreter's behaviour: the strings of \<open>sys.argv\<close> are built when the process
  starts and are not interned, argparse's \<open>type=str\<close> returns the very object it is
  given, and \<open>choices\<close> are compared by value.
\<close>

datatype str_obj = Literal string | Argv nat string

fun chars :: "str_obj \<Rightarrow> string" where
  "chars (Literal s) = s"
| "chars (Argv i s) = s"

definition py_is :: "str_obj \<Rightarrow> str_obj \<Rightarrow> bool" where
  "py_is a b = (a = b)"

text \<open>\<open>range(a, b)\<close> on integers.\<close>

definition range_py :: "int \<Rightarrow> int \<Rightarrow> int list" where
  "range_py a b = [a..b - 1]"

section \<open>The command line (class CLI)\<close>

text \<open>
  The command line after the sub-command \<open>program\<close>, as the sequence of option
  occurrences that argparse recognises (the splitting of the raw tokens is argparse's
  own). \<open>-s\<close> takes one or more integers, \<open>--family\<close> and \<open>-f\<close> one string each.
\<close>

datatype cli_arg =
  Opt_eraseall | Opt_family string | Opt_file string | Opt_sectorserase
  | Opt_sectorsanduicrerase | Opt_snrs "int list" | Opt_systemreset | Opt_verify

fun dest :: "cli_arg \<Rightarrow> string" where
  "dest Opt_eraseall = ''eraseall''"
| "dest (Opt_family s) = ''family''"
| "dest (Opt_file s) = ''file''"
| "dest Opt_sectorserase = ''sectorserase''"
| "dest Opt_sectorsanduicrerase = ''sectorsanduicrerase''"
| "dest (Opt_snrs ns) = ''snrs''"
| "dest Opt_systemreset = ''systemreset''"
| "dest Opt_verify = ''verify''"

text \<open>The two mutually exclusive groups, with the arguments added to each.\<close>

definition erase_before_flash_group :: "string list" where
  "erase_before_flash_group = [''eraseall'', ''sectorserase'', ''sectorsanduicrerase'']"

definition reset_group :: "string list" where
  "reset_group = [''systemreset'']"

text \<open>
  argparse refuses a command line on which two different arguments of one mutually
  exclusive group occur (the same argument may be repeated).
\<close>

definition group_conflict :: "string list \<Rightarrow> cli_arg list \<Rightarrow> bool" where
  "group_conflict g argv = (1 < length (remdups (filter (\<lambda>d. d \<in> set g) (map dest argv))))"

text \<open>The namespace that \<open>parse_args\<close> returns.\<close>

record args =
  args_eraseall :: bool
  args_family :: "str_obj option"
  args_file :: string
  args_sectorserase :: bool
  args_sectorsanduicrerase :: bool
  args_snrs :: "int list option"
  args_systemreset :: bool
  args_verify :: bool

text \<open>
  A stored option keeps its last occurrence; an option that does not occur keeps the
  default \<open>None\<close>. The family string is the object made from that occurrence.
\<close>

fun family_of :: "nat \<Rightarrow> cli_arg list \<Rightarrow> str_obj option" where
  "family_of i [] = None"
| "family_of i (Opt_family s # rest) =
     (case family_of (Suc i) rest of None \<Rightarrow> Some (Argv i s) | Some later \<Rightarrow> Some later)"
| "family_of i (a # rest) = family_of (Suc i) rest"

fun file_of :: "cli_arg list \<Rightarrow> string option" where
  "file_of [] = None"
| "file_of (Opt_file s # rest) =
     (case file_of rest of None \<Rightarrow> Some s | Some later \<Rightarrow> Some later)"
| "file_of (a # rest) = file_of rest"

fun snrs_of :: "cli_arg list \<Rightarrow> int list option" where
  "snrs_of [] = None"
| "snrs_of (Opt_snrs ns # rest) =
     (case snrs_of rest of None \<Rightarrow> Some ns | Some later \<Rightarrow> Some later)"
| "snrs_of (a # rest) = snrs_of rest"

text \<open>\<open>--family\<close> is declared with \<open>choices=['NRF51', 'NRF52']\<close>, compared by value.\<close>

fun family_choice_ok :: "cli_arg \<Rightarrow> bool" where
  "family_choice_ok (Opt_family s) = (s \<in> set [''NRF51'', ''NRF52''])"
| "family_choice_ok a = True"

text \<open>
  \<open>CLI.run\<close>: every refusal of argparse ends in \<open>parser.error\<close>, which raises
  \<open>SystemExit\<close>: a conflict in a mutually exclusive group, a family outside the
  choices, \<open>-s\<close> without a number (\<open>nargs='+'\<close>), a missing \<open>-f\<close> (\<open>required=True\<close>).
\<close>

definition parse_args :: "cli_arg list \<Rightarrow> error + args" where
  "parse_args argv =
     (if group_conflict erase_before_flash_group argv \<or> group_conflict reset_group argv
      then Inl SystemExit
      else if \<not> list_all family_choice_ok argv
      then Inl SystemExit
      else if Opt_snrs [] \<in> set argv then Inl SystemExit
      else case file_of argv of
        None \<Rightarrow> Inl SystemExit
      | Some f \<Rightarrow> Inr \<lparr>
          args_eraseall = (Opt_eraseall \<in> set argv),
          args_family = family_of 0 argv,
          args_file = f,
          args_sectorserase = (Opt_sectorserase \<in> set argv),
          args_sectorsanduicrerase = (Opt_sectorsanduicrerase \<in> set argv),
          args_snrs = snrs_of argv,
          args_systemreset = (Opt_systemreset \<in> set argv),
          args_verify = (Opt_verify \<in> set argv) \<rparr>)"

section \<open>The probe library and the hex reader (external)\<close>

text \<open>
  A \<open>MultiAPI\<close> object is a handle. Every method call on a handle is an event of the
  trace, tagged with the thread that issued it (the main thread, or the pool's worker
  for the \<open>i\<close>-th target). The tag is there to state who used which handle; the program
  does not read it.
\<close>

type_synonym handle = nat

datatype call =
  Construct string | Open | Enum_emu_snr | Connect_to_emu_with_snr int | Recover
  | Erase_uicr | Erase_page int | Write int "int list" bool | Read int int | Sys_reset
  | Disconnect_from_emu | Close

datatype thread = Main_thread | Worker nat

type_synonym event = "thread \<times> handle \<times> call"

text \<open>
  The library and the hardware behind it are a parameter: whether a call raises, what
  the enumeration returns and what a read returns may each depend on everything that
  happened before (the trace so far).
\<close>

record transport =
  raises :: "event list \<Rightarrow> event \<Rightarrow> bool"
  enum_reply :: "event list \<Rightarrow> int list"
  read_reply :: "event list \<Rightarrow> handle \<Rightarrow> int \<Rightarrow> int \<Rightarrow> int list"

text \<open>
  What the program can change: the trace of library calls, the handles constructed so
  far, and the dictionary \<open>self.nRF5_instances\<close> of the one \<open>nRF5MultiFlash\<close> object,
  which all workers share.
\<close>

record world =
  trace :: "event list"
  next_handle :: handle
  nRF5_instances :: "int \<rightharpoonup> handle"

definition world0 :: world where
  "world0 = \<lparr> trace = [], next_handle = 0, nRF5_instances = Map.empty \<rparr>"

text \<open>A method call on a handle: the call is recorded, then it raises or returns.\<close>

definition api_call :: "transport \<Rightarrow> thread \<Rightarrow> handle \<Rightarrow> call \<Rightarrow> world \<Rightarrow> world \<times> error option" where
  "api_call T who h c w =
     (w\<lparr>trace := trace w @ [(who, h, c)]\<rparr>,
      if raises T (trace w) (who, h, c) then Some APIError else None)"

text \<open>\<open>MultiAPI.MultiAPI(family)\<close>: a new handle, unless the constructor raises.\<close>

definition new_MultiAPI :: "transport \<Rightarrow> thread \<Rightarrow> string \<Rightarrow> world \<Rightarrow> world \<times> (error + handle)" where
  "new_MultiAPI T who fam w =
     (let h = next_handle w in
      case api_call T who h (Construct fam) (w\<lparr>next_handle := Suc h\<rparr>) of
        (w', Some e) \<Rightarrow> (w', Inl e)
      | (w', None) \<Rightarrow> (w', Inr h))"

text \<open>
  A loaded hex file: its segments \<open>(start, end)\<close> in the reader's order, and
  \<open>tobinarray(start, size)\<close>.
\<close>

record intel_hex =
  segments :: "(int \<times> int) list"
  tobinarray :: "int \<Rightarrow> int \<Rightarrow> int list"

section \<open>class nRF5MultiFlash\<close>

record nRF5MultiFlash =
  erase_all :: bool
  family :: str_obj
  file_name :: string
  sectors_erase :: bool
  sectors_and_uicr_erase :: bool
  snrs :: "int list"
  systemreset :: bool
  verify :: bool
  PAGE_SIZE :: int
  hex_file :: intel_hex

subsection \<open>The constructor\<close>

text \<open>\<open>not self.family\<close>: true of \<open>None\<close> and of the empty string.\<close>

fun not_family :: "str_obj option \<Rightarrow> bool" where
  "not_family None = True"
| "not_family (Some s) = (chars s = [])"

text \<open>\<open>not self.snrs\<close>: true of \<open>None\<close> and of the empty list.\<close>

fun not_snrs :: "int list option \<Rightarrow> bool" where
  "not_snrs None = True"
| "not_snrs (Some ns) = (ns = [])"

text \<open>
  The enumeration of the attached probes, lines 84 to 87: a handle of its own,
  constructed with the literal \<open>'NRF51'\<close>, opened, asked, closed. Any of the calls may
  raise; nothing catches it.
\<close>

definition enum_snrs :: "transport \<Rightarrow> world \<Rightarrow> world \<times> (error + int list)" where
  "enum_snrs T w =
     (case new_MultiAPI T Main_thread ''NRF51'' w of
        (w1, Inl e) \<Rightarrow> (w1, Inl e)
      | (w1, Inr tmp) \<Rightarrow>
     (case api_call T Main_thread tmp Open w1 of
        (w2, Some e) \<Rightarrow> (w2, Inl e)
      | (w2, None) \<Rightarrow>
     (case api_call T Main_thread tmp Enum_emu_snr w2 of
        (w3, Some e) \<Rightarrow> (w3, Inl e)
      | (w3, None) \<Rightarrow>
     (case api_call T Main_thread tmp Close w3 of
        (w4, Some e) \<Rightarrow> (w4, Inl e)
      | (w4, None) \<Rightarrow> (w4, Inr (enum_reply T (trace w2)))))))"

text \<open>Lines 83 to 87: the list given with \<open>-s\<close> if it is not empty, else the enumeration.\<close>

definition resolve_snrs :: "transport \<Rightarrow> int list option \<Rightarrow> world \<Rightarrow> world \<times> (error + int list)" where
  "resolve_snrs T explicit w =
     (if not_snrs explicit then enum_snrs T w else (w, Inr (the explicit)))"

text \<open>Lines 89 to 92: the page size, chosen by the identity test \<open>self.family is 'NRF51'\<close>.\<close>

definition page_size_of :: "str_obj \<Rightarrow> int" where
  "page_size_of fam = (if py_is fam (Literal ''NRF51'') then 0x400 else 0x1000)"

definition nRF5MultiFlash_init ::
  "transport \<Rightarrow> (string \<Rightarrow> intel_hex option) \<Rightarrow> args \<Rightarrow> world \<Rightarrow> world \<times> (error + nRF5MultiFlash)" where
  "nRF5MultiFlash_init T fs a w =
     (let w0 = w\<lparr>nRF5_instances := Map.empty\<rparr>;
          fam = (if not_family (args_family a) then Literal ''NRF51'' else the (args_family a))
      in case resolve_snrs T (args_snrs a) w0 of
           (w1, Inl e) \<Rightarrow> (w1, Inl e)
         | (w1, Inr ns) \<Rightarrow>
             (case fs (args_file a) of
                None \<Rightarrow> (w1, Inl IOError)
              | Some hf \<Rightarrow> (w1, Inr \<lparr>
                  erase_all = args_eraseall a,
                  family = fam,
                  file_name = args_file a,
                  sectors_erase = args_sectorserase a,
                  sectors_and_uicr_erase = args_sectorsanduicrerase a,
                  snrs = ns,
                  systemreset = args_systemreset a,
                  verify = args_verify a,
                  PAGE_SIZE = page_size_of fam,
                  hex_file = hf \<rparr>)))"

subsection \<open>\<open>_byte_lists_equal\<close>\<close>

text \<open>
  The loop over \<open>xrange(len(data))\<close>. \<open>data[i]\<close> is in range by the loop bound;
  \<open>read_data[i]\<close> raises \<open>IndexError\<close> when \<open>read_data\<close> is too short.
\<close>

fun byte_lists_equal_loop :: "nat list \<Rightarrow> 'a list \<Rightarrow> 'a list \<Rightarrow> error + bool" where
  "byte_lists_equal_loop [] data read_data = Inr True"
| "byte_lists_equal_loop (i # rest) data read_data =
     (if length read_data \<le> i then Inl IndexError
      else if data ! i \<noteq> read_data ! i then Inr False
      else byte_lists_equal_loop rest data read_data)"

definition byte_lists_equal :: "'a list \<Rightarrow> 'a list \<Rightarrow> error + bool" where
  "byte_lists_equal data read_data = byte_lists_equal_loop [0..<length data] data read_data"

subsection \<open>The pages to erase for one segment\<close>

text \<open>
  Lines 118 to 121: the addresses passed to \<open>erase_page\<close>, in the order of the loop.
  The program is Python 2 (it uses \<open>xrange\<close>): on integers \<open>a / b\<close> is the floor of the
  quotient, as \<open>div\<close> is on \<open>int\<close>, and it raises for a divisor 0.
\<close>

definition erase_pages :: "int \<Rightarrow> int \<Rightarrow> int \<Rightarrow> error + int list" where
  "erase_pages page_size start_addr end_addr =
     (if page_size = 0 then Inl ZeroDivisionError
      else let start_page = start_addr div page_size;
               end_page = end_addr div page_size
           in Inr (map (\<lambda>page. page * page_size) (range_py start_page (end_page + 1))))"

subsection \<open>The operations of a worker\<close>

text \<open>
  A method of the class that talks to a probe is the list of operations it performs, in
  program order. An operation is one statement of the source: the assignment of a new
  \<open>MultiAPI\<close> to the dictionary slot of the device, a method call on whatever handle
  the slot of the device holds at that moment, the read-back with its assertion, or a
  fault of the arithmetic. An exception ends the list where it is raised.
\<close>

datatype op =
  New_instance int string
  | Inst_call int call
  | Verify_read int int "int list"
  | Raise error

fun step :: "transport \<Rightarrow> thread \<Rightarrow> op \<Rightarrow> world \<Rightarrow> world \<times> error option" where
  "step T who (New_instance device fam) w =
     (case new_MultiAPI T who fam w of
        (w', Inl e) \<Rightarrow> (w', Some e)
      | (w', Inr h) \<Rightarrow> (w'\<lparr>nRF5_instances := (nRF5_instances w')(device \<mapsto> h)\<rparr>, None))"
| "step T who (Inst_call device c) w =
     (case nRF5_instances w device of
        None \<Rightarrow> (w, Some KeyError)
      | Some h \<Rightarrow> api_call T who h c w)"
| "step T who (Verify_read device start_addr data) w =
     (case nRF5_instances w device of
        None \<Rightarrow> (w, Some KeyError)
      | Some h \<Rightarrow>
          (case api_call T who h (Read start_addr (int (length data))) w of
             (w', Some e) \<Rightarrow> (w', Some e)
           | (w', None) \<Rightarrow>
               (case byte_lists_equal data
                       (read_reply T (trace w) h start_addr (int (length data))) of
                  Inl e \<Rightarrow> (w', Some e)
                | Inr ok \<Rightarrow> (w', if ok then None else Some AssertionError))))"
| "step T who (Raise e) w = (w, Some e)"

text \<open>The library calls an operation can issue, and the dictionary slot it uses.\<close>

fun op_calls :: "op \<Rightarrow> call list" where
  "op_calls (New_instance device fam) = [Construct fam]"
| "op_calls (Inst_call device c) = [c]"
| "op_calls (Verify_read device start_addr data) = [Read start_addr (int (length data))]"
| "op_calls (Raise e) = []"

fun op_device :: "op \<Rightarrow> int option" where
  "op_device (New_instance device fam) = Some device"
| "op_device (Inst_call device c) = Some device"
| "op_device (Verify_read device start_addr data) = Some device"
| "op_device (Raise e) = None"

text \<open>Statements in sequence: the first exception ends the run.\<close>

fun run_ops :: "transport \<Rightarrow> thread \<Rightarrow> op list \<Rightarrow> world \<Rightarrow> world \<times> error option" where
  "run_ops T who [] w = (w, None)"
| "run_ops T who (p # ps) w =
     (case step T who p w of
        (w', Some e) \<Rightarrow> (w', Some e)
      | (w', None) \<Rightarrow> run_ops T who ps w')"

definition connect_to_device :: "nRF5MultiFlash \<Rightarrow> int \<Rightarrow> op list" where
  "connect_to_device self device =
     [New_instance device (chars (family self)),
      Inst_call device Open,
      Inst_call device (Connect_to_emu_with_snr device)]"

text \<open>The body of the loop over the segments, lines 114 to 131.\<close>

definition program_segment :: "nRF5MultiFlash \<Rightarrow> int \<Rightarrow> int \<times> int \<Rightarrow> op list" where
  "program_segment self device segment =
     (let start_addr = fst segment;
          end_addr = snd segment;
          size = end_addr - start_addr;
          data = tobinarray (hex_file self) start_addr size
      in (if sectors_erase self \<or> sectors_and_uicr_erase self
          then (case erase_pages (PAGE_SIZE self) start_addr end_addr of
                  Inl e \<Rightarrow> [Raise e]
                | Inr pages \<Rightarrow> map (\<lambda>a. Inst_call device (Erase_page a)) pages)
          else [])
         @ [Inst_call device (Write start_addr data True)]
         @ (if verify self then [Verify_read device start_addr data] else [])
         @ (if systemreset self then [Inst_call device Sys_reset] else []))"

definition program_device :: "nRF5MultiFlash \<Rightarrow> int \<Rightarrow> op list" where
  "program_device self device =
     (if erase_all self then [Inst_call device Recover] else [])
     @ (if sectors_and_uicr_erase self then [Inst_call device Erase_uicr] else [])
     @ concat (map (program_segment self device) (segments (hex_file self)))"

definition cleanup :: "int \<Rightarrow> op list" where
  "cleanup device = [Inst_call device Disconnect_from_emu, Inst_call device Close]"

definition perform_command :: "nRF5MultiFlash \<Rightarrow> int \<Rightarrow> op list" where
  "perform_command self device =
     connect_to_device self device @ program_device self device @ cleanup device"

section \<open>The thread pool and \<open>main\<close>\<close>

text \<open>
  \<open>pool.map(nRF.perform_command, nRF.snrs)\<close> runs one task per entry of the list, the
  tasks running concurrently on the pool's threads. A task is either still running,
  with the operations it has left (none left: it has returned \<open>None\<close>), or it has ended
  with an exception.
\<close>

datatype worker = Running "op list" | Raised error

text \<open>
  The state of the pool: the world, the tasks, and the first exception a task ended
  with, which is what \<open>map\<close> raises in the caller.
\<close>

type_synonym pool_state = "world \<times> worker list \<times> error option"

text \<open>Task \<open>i\<close> performs its next operation, if it has one.\<close>

fun pool_step :: "transport \<Rightarrow> nat \<Rightarrow> pool_state \<Rightarrow> pool_state" where
  "pool_step T i (w, ws, first) =
     (if i < length ws then
        (case ws ! i of
           Raised e \<Rightarrow> (w, ws, first)
         | Running ops \<Rightarrow>
             (case ops of
                [] \<Rightarrow> (w, ws, first)
              | p # ps \<Rightarrow>
                  (case step T (Worker i) p w of
                     (w', None) \<Rightarrow> (w', ws[i := Running ps], first)
                   | (w', Some e) \<Rightarrow>
                       (w', ws[i := Raised e],
                        (case first of None \<Rightarrow> Some e | Some e0 \<Rightarrow> Some e0)))))
      else (w, ws, first))"

text \<open>
  An interleaving of the tasks is a schedule: the list of the task numbers in the order
  in which they take their steps. Every moment of every concurrent run is the state
  after some finite schedule.
\<close>

fun run_sched :: "transport \<Rightarrow> nat list \<Rightarrow> pool_state \<Rightarrow> pool_state" where
  "run_sched T [] st = st"
| "run_sched T (i # sched) st = run_sched T sched (pool_step T i st)"

text \<open>
  What the caller of \<open>map\<close> has got at a state of the pool: the exception of the first
  task that failed, or the list of the tasks' return values once every task has
  returned, or nothing yet.
\<close>

datatype 'a outcome = Blocked | Returns 'a | Raises error

definition map_result :: "pool_state \<Rightarrow> unit list outcome" where
  "map_result st =
     (case st of (w, ws, first) \<Rightarrow>
        (case first of
           Some e \<Rightarrow> Raises e
         | None \<Rightarrow>
             if list_all (\<lambda>x. x = Running []) ws then Returns (map (\<lambda>x. ()) ws)
             else Blocked))"

definition pool_map ::
  "transport \<Rightarrow> nat list \<Rightarrow> (int \<Rightarrow> op list) \<Rightarrow> int list \<Rightarrow> world \<Rightarrow> world \<times> unit list outcome" where
  "pool_map T sched f xs w =
     (case run_sched T sched (w, map (\<lambda>x. Running (f x)) xs, None) of
        (w', ws, first) \<Rightarrow> (w', map_result (w', ws, first)))"

text \<open>
  \<open>main\<close>, lines 144 to 151: parse, construct, make the pool (\<open>ThreadPool(n)\<close> raises
  \<open>ValueError\<close> for \<open>n < 1\<close>), map. The list that \<open>map\<close> returns is dropped.
\<close>

definition main ::
  "transport \<Rightarrow> (string \<Rightarrow> intel_hex option) \<Rightarrow> cli_arg list \<Rightarrow> nat list \<Rightarrow> world \<times> unit outcome" where
  "main T fs argv sched =
     (case parse_args argv of
        Inl e \<Rightarrow> (world0, Raises e)
      | Inr a \<Rightarrow>
          (case nRF5MultiFlash_init T fs a world0 of
             (w1, Inl e) \<Rightarrow> (w1, Raises e)
           | (w1, Inr nRF) \<Rightarrow>
               if length (snrs nRF) < 1 then (w1, Raises ValueError)
               else (case pool_map T sched (perform_command nRF) (snrs nRF) w1 of
                       (w2, Blocked) \<Rightarrow> (w2, Blocked)
                     | (w2, Returns rs) \<Rightarrow> (w2, Returns ())
                     | (w2, Raises e) \<Rightarrow> (w2, Raises e))))"

section \<open>Invariants of the pool\<close>

text \<open>
  The events \<open>evs\<close> that the workers for the targets \<open>xs\<close> have issued so far are
  well owned in a world: every handle in them has been constructed; every event is the
  event of some worker, on a handle that this worker constructed; no handle occurs with
  two threads; and the handle in the slot of the \<open>i\<close>-th target was constructed by the
  \<open>i\<close>-th worker.
\<close>

definition owns :: "int list \<Rightarrow> event list \<Rightarrow> world \<Rightarrow> bool" where
  "owns xs evs w \<longleftrightarrow>
     (\<forall>ev \<in> set evs. fst (snd ev) < next_handle w)
     \<and> (\<forall>ev \<in> set evs. \<exists>i fam. i < length xs \<and> fst ev = Worker i
            \<and> (Worker i, fst (snd ev), Construct fam) \<in> set evs)
     \<and> (\<forall>ev \<in> set evs. \<forall>ev' \<in> set evs. fst (snd ev) = fst (snd ev') \<longrightarrow> fst ev = fst ev')
     \<and> (\<forall>i < length xs. \<forall>h. nRF5_instances w (xs ! i) = Some h \<longrightarrow>
            (\<exists>fam. (Worker i, h, Construct fam) \<in> set evs))"

text \<open>
  The state of the pool is well owned: one task per target, each task only touching the
  slot of its own target, and the events since the trace \<open>tr0\<close> well owned.
\<close>

definition pool_owns :: "int list \<Rightarrow> event list \<Rightarrow> pool_state \<Rightarrow> bool" where
  "pool_owns xs tr0 st \<longleftrightarrow>
     length (fst (snd st)) = length xs
     \<and> (\<forall>j < length xs. \<forall>ops. fst (snd st) ! j = Running ops \<longrightarrow>
          (\<forall>p \<in> set ops. op_device p = Some (xs ! j) \<or> op_device p = None))
     \<and> (\<exists>evs. trace (fst st) = tr0 @ evs \<and> owns xs evs (fst st))"

text \<open>
  The progress of the pool: one task per target; a running task has its script split
  into the operations done, each of whose calls is in the trace under the task's
  thread, and the operations left; the first exception is recorded exactly when some
  task has ended with an exception, and it is the exception of such a task.
\<close>

definition pool_done :: "(int \<Rightarrow> op list) \<Rightarrow> int list \<Rightarrow> pool_state \<Rightarrow> bool" where
  "pool_done script xs st \<longleftrightarrow>
     length (fst (snd st)) = length xs
     \<and> (\<forall>i < length xs. \<forall>ops. fst (snd st) ! i = Running ops \<longrightarrow>
          (\<exists>done. script (xs ! i) = done @ ops
             \<and> (\<forall>p \<in> set done. \<forall>c \<in> set (op_calls p).
                   \<exists>h. (Worker i, h, c) \<in> set (trace (fst st)))))
     \<and> (snd (snd st) = None \<longrightarrow> (\<forall>i < length xs. \<exists>ops. fst (snd st) ! i = Running ops))
     \<and> (\<forall>e. snd (snd st) = Some e \<longrightarrow> (\<exists>i < length xs. fst (snd st) ! i = Raised e))"

text \<open>The operations a task has left; a task that ended with an exception has none.\<close>

fun remaining :: "worker \<Rightarrow> nat" where
  "remaining (Running ops) = length ops"
| "remaining (Raised e) = 0"

section \<open>Example inputs\<close>

text \<open>
  A probe library on which no call raises, with two probes attached and erased flash
  behind every read; and one on which every write raises.
\<close>

definition transport_ok :: transport where
  "transport_ok = \<lparr>
     raises = (\<lambda>tr ev. False),
     enum_reply = (\<lambda>tr. [11, 22]),
     read_reply = (\<lambda>tr h a n. replicate (nat n) 0xFF) \<rparr>"

fun is_write :: "call \<Rightarrow> bool" where
  "is_write (Write a d b) = True"
| "is_write c = False"

definition transport_write_fails :: transport where
  "transport_write_fails = \<lparr>
     raises = (\<lambda>tr ev. is_write (snd (snd ev))),
     enum_reply = (\<lambda>tr. [11, 22]),
     read_reply = (\<lambda>tr h a n. replicate (nat n) 0xFF) \<rparr>"

text \<open>
  A probe library on which the writes of the second worker raise and nothing else
  does; and one with no probe attached.
\<close>

definition transport_second_fails :: transport where
  "transport_second_fails = \<lparr>
     raises = (\<lambda>tr ev. fst ev = Worker 1 \<and> is_write (snd (snd ev))),
     enum_reply = (\<lambda>tr. [11, 22]),
     read_reply = (\<lambda>tr h a n. replicate (nat n) 0xFF) \<rparr>"

definition transport_no_probes :: transport where
  "transport_no_probes = \<lparr>
     raises = (\<lambda>tr ev. False),
     enum_reply = (\<lambda>tr. []),
     read_reply = (\<lambda>tr h a n. replicate (nat n) 0xFF) \<rparr>"

text \<open>A hex file of two short segments, and a file system that holds it as \<open>app.hex\<close>.\<close>

definition hex_two_segments :: intel_hex where
  "hex_two_segments = \<lparr>
     segments = [(0x1000, 0x1004), (0x2000, 0x2002)],
     tobinarray = (\<lambda>start size. replicate (nat size) 0xFF) \<rparr>"

definition files0 :: "string \<Rightarrow> intel_hex option" where
  "files0 f = (if f = ''app.hex'' then Some hex_two_segments else None)"

text \<open>The object that the constructor builds for \<open>program -f app.hex -s 7\<close>.\<close>

definition nRF_plain :: nRF5MultiFlash where
  "nRF_plain = \<lparr>
     erase_all = False, family = Literal ''NRF51'', file_name = ''app.hex'',
     sectors_erase = False, sectors_and_uicr_erase = False, snrs = [7],
     systemreset = False, verify = False, PAGE_SIZE = 0x400,
     hex_file = hex_two_segments \<rparr>"

section \<open>The comparison of the read-back\<close>

lemma byte_lists_equal_loop_in_range:
  "\<forall>i \<in> set idxs. i < length read_data \<Longrightarrow>
   byte_lists_equal_loop idxs data read_data = Inr (\<forall>i \<in> set idxs. data ! i = read_data ! i)"
  by (induction idxs) auto

lemma byte_lists_equal_loop_short:
  "sorted idxs \<Longrightarrow> \<exists>i \<in> set idxs. length read_data \<le> i \<Longrightarrow>
   \<forall>i \<in> set idxs. i < length read_data \<longrightarrow> data ! i = read_data ! i \<Longrightarrow>
   byte_lists_equal_loop idxs data read_data = Inl IndexError"
  by (induction idxs) auto

text \<open>
  Claim C10. When \<open>read_data\<close> is at least as long as \<open>data\<close>, \<open>_byte_lists_equal\<close>
  returns \<open>True\<close> exactly when the two lists agree at every index of \<open>data\<close>, and bytes
  of \<open>read_data\<close> beyond the length of \<open>data\<close> do not change the result. When
  \<open>read_data\<close> is shorter than \<open>data\<close> and agrees with it on all its own indices, the
  comparison ends with \<open>IndexError\<close> instead of a result.
\<close>

theorem byte_lists_equal_spec:
  "(length data \<le> length read_data \<longrightarrow>
      byte_lists_equal data read_data = Inr (\<forall>i < length data. data ! i = read_data ! i)
      \<and> byte_lists_equal data (read_data @ extra) = byte_lists_equal data read_data)
   \<and> (length read_data < length data \<and> (\<forall>i < length read_data. data ! i = read_data ! i) \<longrightarrow>
      byte_lists_equal data read_data = Inl IndexError)"
proof (intro conjI impI)
  assume le: "length data \<le> length read_data"
  then show "byte_lists_equal data read_data = Inr (\<forall>i < length data. data ! i = read_data ! i)"
    unfolding byte_lists_equal_def by (subst byte_lists_equal_loop_in_range) auto
  from le show "byte_lists_equal data (read_data @ extra) = byte_lists_equal data read_data"
    unfolding byte_lists_equal_def
    by (subst byte_lists_equal_loop_in_range, force)
      (subst byte_lists_equal_loop_in_range, force, auto simp: nth_append)
next
  assume "length read_data < length data \<and> (\<forall>i < length read_data. data ! i = read_data ! i)"
  then show "byte_lists_equal data read_data = Inl IndexError"
    unfolding byte_lists_equal_def by (intro byte_lists_equal_loop_short) auto
qed

theorem byte_lists_equal_spec_witness:
  "byte_lists_equal [1, 2, 3 :: int] [1, 2, 3, 4] = Inr True
   \<and> byte_lists_equal [1, 2, 3 :: int] ([1, 2, 3, 4] @ [9]) = byte_lists_equal [1, 2, 3 :: int] [1, 2, 3, 4]
   \<and> byte_lists_equal [1, 7, 3 :: int] [1, 2, 3, 4] = Inr False
   \<and> byte_lists_equal [1, 2, 3 :: int] [1, 2] = Inl IndexError"
  using byte_lists_equal_spec [of "[1, 2, 3 :: int]" "[1, 2, 3, 4]" "[9]"]
    byte_lists_equal_spec [of "[1, 7, 3 :: int]" "[1, 2, 3, 4]" "[]"]
    byte_lists_equal_spec [of "[1, 2, 3 :: int]" "[1, 2]" "[]"]
  by (simp add: less_Suc_eq numeral_3_eq_3 numeral_2_eq_2)

section \<open>The erase plan of a segment\<close>

lemma page_unique:
  assumes "0 < (ps::int)" "q * ps \<le> x" "x < q * ps + ps"
  shows "q = x div ps"
proof -
  have "x div ps = q"
    by (rule int_div_pos_eq [of x ps q "x - q * ps"]) (use assms in \<open>auto simp: algebra_simps\<close>)
  then show ?thesis by simp
qed

lemma page_of_addr:
  assumes "0 < (ps::int)"
  shows "(x div ps) * ps \<le> x \<and> x < (x div ps) * ps + ps"
proof -
  have "x = (x div ps) * ps + x mod ps" by simp
  moreover have "0 \<le> x mod ps" "x mod ps < ps" using assms by simp_all
  ultimately show ?thesis by linarith
qed

lemma program_segment_erases_first:
  assumes "sectors_erase self \<or> sectors_and_uicr_erase self"
    and "erase_pages (PAGE_SIZE self) start_addr end_addr = Inr pages"
  shows "\<exists>rest. program_segment self device (start_addr, end_addr) =
      map (\<lambda>a. Inst_call device (Erase_page a)) pages
      @ Inst_call device (Write start_addr (tobinarray (hex_file self) start_addr (end_addr - start_addr)) True)
      # rest"
  using assms by (auto simp: program_segment_def Let_def)

text \<open>
  Claim C1. For a segment with \<open>start < end\<close> and a page size above 0, the addresses
  erased before the segment is written are exactly \<open>page * pageSize\<close> for \<open>page\<close> from
  \<open>floor(start / pageSize)\<close> to \<open>floor(end / pageSize)\<close> inclusive, in ascending order:
  strictly increasing (no page twice), each one page size after the one before (no
  gap), and every byte address of \<open>[start, end)\<close> lies in exactly one of the planned
  pages. In the loop body these erase calls stand before the write of the segment.
\<close>

theorem erase_pages_plan:
  assumes "start_addr < end_addr" and "0 < page_size"
  shows "\<exists>pages. erase_pages page_size start_addr end_addr = Inr pages
     \<and> pages = map (\<lambda>page. page * page_size) [start_addr div page_size..end_addr div page_size]
     \<and> sorted_wrt (<) pages
     \<and> (\<forall>i. Suc i < length pages \<longrightarrow> pages ! Suc i = pages ! i + page_size)
     \<and> (\<forall>a. start_addr \<le> a \<and> a < end_addr \<longrightarrow>
           (\<exists>!p. p \<in> set pages \<and> p \<le> a \<and> a < p + page_size))
     \<and> (\<forall>self device. (sectors_erase self \<or> sectors_and_uicr_erase self)
           \<and> PAGE_SIZE self = page_size \<longrightarrow>
           (\<exists>rest. program_segment self device (start_addr, end_addr) =
              map (\<lambda>a. Inst_call device (Erase_page a)) pages
              @ Inst_call device (Write start_addr
                  (tobinarray (hex_file self) start_addr (end_addr - start_addr)) True)
              # rest))"
proof -
  define pages where "pages = map (\<lambda>page. page * page_size) [start_addr div page_size..end_addr div page_size]"
  have ret: "erase_pages page_size start_addr end_addr = Inr pages"
    using assms by (simp add: erase_pages_def range_py_def pages_def)
  have asc: "sorted_wrt (<) pages"
    unfolding pages_def using assms(2) by (simp add: sorted_wrt_map)
  have gaps: "pages ! Suc i = pages ! i + page_size" if "Suc i < length pages" for i
  proof -
    from that have "Suc i < length [start_addr div page_size..end_addr div page_size]"
      by (simp add: pages_def)
    then show ?thesis
      unfolding pages_def by (simp add: algebra_simps)
  qed
  have cover: "\<exists>!p. p \<in> set pages \<and> p \<le> a \<and> a < p + page_size"
    if "start_addr \<le> a \<and> a < end_addr" for a
  proof (rule ex1I [of _ "(a div page_size) * page_size"])
    have "start_addr div page_size \<le> a div page_size" "a div page_size \<le> end_addr div page_size"
      using that assms(2) by (simp_all add: zdiv_mono1)
    then have "(a div page_size) * page_size \<in> set pages"
      by (auto simp: pages_def)
    then show "(a div page_size) * page_size \<in> set pages \<and> (a div page_size) * page_size \<le> a
        \<and> a < (a div page_size) * page_size + page_size"
      using page_of_addr [OF assms(2), of a] by simp
  next
    fix p assume p: "p \<in> set pages \<and> p \<le> a \<and> a < p + page_size"
    then obtain q where "p = q * page_size" by (auto simp: pages_def)
    with p page_unique [OF assms(2), of q a] show "p = (a div page_size) * page_size"
      by simp
  qed
  have prog: "\<exists>rest. program_segment self device (start_addr, end_addr) =
      map (\<lambda>a. Inst_call device (Erase_page a)) pages
      @ Inst_call device (Write start_addr (tobinarray (hex_file self) start_addr (end_addr - start_addr)) True)
      # rest"
    if "(sectors_erase self \<or> sectors_and_uicr_erase self) \<and> PAGE_SIZE self = page_size"
    for self :: nRF5MultiFlash and device
    using that ret program_segment_erases_first [of self start_addr end_addr pages device] by simp
  from ret asc gaps cover prog show ?thesis
    unfolding pages_def [symmetric] by blast
qed

theorem erase_pages_plan_witness:
  "(0x1000 :: int) < 0x1A00 \<and> (0 :: int) < 0x400
   \<and> erase_pages 0x400 0x1000 0x1A00 = Inr [0x1000, 0x1400, 0x1800]"
  using erase_pages_plan [of "0x1000" "0x1A00" "0x400"]
  by (auto simp: upto.simps)

text \<open>
  Claim C6. For a segment with \<open>start < end\<close> whose end is a multiple of the page size,
  the last planned page starts at \<open>end\<close>: it holds no byte of the segment, it is planned
  once, and the pages before it already cover every byte of \<open>[start, end)\<close>.
\<close>

theorem erase_pages_aligned_end:
  assumes "start_addr < end_addr" and "0 < page_size" and "end_addr mod page_size = 0"
  shows "\<exists>pages. erase_pages page_size start_addr end_addr = Inr pages
     \<and> pages \<noteq> [] \<and> last pages = end_addr
     \<and> end_addr \<notin> set (butlast pages)
     \<and> (\<forall>a. start_addr \<le> a \<and> a < end_addr \<longrightarrow>
           \<not> (end_addr \<le> a \<and> a < end_addr + page_size)
           \<and> (\<exists>p \<in> set (butlast pages). p \<le> a \<and> a < p + page_size))"
proof -
  define s_pg where "s_pg = start_addr div page_size"
  define e_pg where "e_pg = end_addr div page_size"
  define pages where "pages = map (\<lambda>page. page * page_size) [s_pg..e_pg]"
  have ret: "erase_pages page_size start_addr end_addr = Inr pages"
    using assms by (simp add: erase_pages_def range_py_def pages_def s_pg_def e_pg_def)
  have e_eq: "e_pg * page_size = end_addr"
  proof -
    have "page_size dvd end_addr" using assms(3) by (simp add: mod_eq_0_iff_dvd)
    then show ?thesis by (simp add: e_pg_def)
  qed
  have le: "s_pg \<le> e_pg"
    unfolding s_pg_def e_pg_def using assms by (simp add: zdiv_mono1)
  then have split: "[s_pg..e_pg] = [s_pg..e_pg - 1] @ [e_pg]"
    by (simp add: upto_rec2)
  have ne: "pages \<noteq> []" and lst: "last pages = end_addr"
    and bl: "butlast pages = map (\<lambda>page. page * page_size) [s_pg..e_pg - 1]"
    unfolding pages_def split using e_eq by simp_all
  have notin: "end_addr \<notin> set (butlast pages)"
  proof
    assume "end_addr \<in> set (butlast pages)"
    then obtain q where q: "q \<le> e_pg - 1" "end_addr = q * page_size"
      unfolding bl by auto
    then have "q * page_size = e_pg * page_size" using e_eq by simp
    then have "q = e_pg" using assms(2) by simp
    with q show False by simp
  qed
  have cover: "\<not> (end_addr \<le> a \<and> a < end_addr + page_size)
      \<and> (\<exists>p \<in> set (butlast pages). p \<le> a \<and> a < p + page_size)"
    if a: "start_addr \<le> a \<and> a < end_addr" for a
  proof -
    have lo: "s_pg \<le> a div page_size"
      unfolding s_pg_def using a assms(2) by (simp add: zdiv_mono1)
    have "a div page_size < e_pg"
    proof (rule ccontr)
      assume "\<not> a div page_size < e_pg"
      then have "e_pg * page_size \<le> (a div page_size) * page_size"
        using assms(2) by simp
      with e_eq page_of_addr [OF assms(2), of a] a show False by linarith
    qed
    with lo have "(a div page_size) * page_size \<in> set (butlast pages)"
      unfolding bl by auto
    with page_of_addr [OF assms(2), of a] a show ?thesis by auto
  qed
  from ret ne lst notin cover show ?thesis by blast
qed

theorem erase_pages_aligned_end_witness:
  "(0x1000 :: int) < 0x1800 \<and> (0 :: int) < 0x400 \<and> (0x1800 :: int) mod 0x400 = 0
   \<and> erase_pages 0x400 0x1000 0x1800 = Inr [0x1000, 0x1400, 0x1800]"
proof -
  have "erase_pages 0x400 0x1000 0x1800 = Inr [0x1000, 0x1400, 0x1800]"
    by (simp add: erase_pages_def range_py_def upto.simps)
  with erase_pages_aligned_end [of "0x1000" "0x1800" "0x400"] show ?thesis
    by auto
qed

section \<open>The page size of the family\<close>

lemma family_of_Argv:
  "family_of i argv = Some f \<Longrightarrow> \<exists>k s. f = Argv k s \<and> Opt_family s \<in> set argv"
proof (induction i argv arbitrary: f rule: family_of.induct)
  case (1 i)
  then show ?case by simp
next
  case (2 i s rest)
  then show ?case by (auto split: option.splits)
qed auto

text \<open>Without \<open>--family\<close> the family is the literal of line 81, and the page size 0x400.\<close>

lemma init_default_family:
  assumes "args_family a = None"
    and "nRF5MultiFlash_init T fs a w = (w', Inr nRF)"
  shows "family nRF = Literal ''NRF51'' \<and> PAGE_SIZE nRF = 0x400"
  using assms
  by (auto simp: nRF5MultiFlash_init_def Let_def page_size_of_def py_is_def
      split: prod.splits sum.splits option.splits)

text \<open>
  With \<open>--family\<close> the family is the string object of the command line, which is not
  the object of the literal: the page size is 0x1000 for \<open>NRF52\<close> and for \<open>NRF51\<close> alike.
\<close>

lemma init_explicit_family:
  assumes "parse_args argv = Inr a" and "args_family a = Some f"
    and "nRF5MultiFlash_init T fs a w = (w', Inr nRF)"
  shows "family nRF = f \<and> chars f \<in> {''NRF51'', ''NRF52''} \<and> PAGE_SIZE nRF = 0x1000"
proof -
  from assms(1) have ok: "list_all family_choice_ok argv" and fo: "args_family a = family_of 0 argv"
    by (auto simp: parse_args_def split: if_splits option.splits)
  with assms(2) obtain k s where f: "f = Argv k s" "Opt_family s \<in> set argv"
    using family_of_Argv [of 0 argv f] by auto
  with ok have s: "s \<in> {''NRF51'', ''NRF52''}"
    by (auto simp: list_all_iff)
  then have "\<not> not_family (Some f)" using f by auto
  with assms(2,3) have "family nRF = f" "PAGE_SIZE nRF = page_size_of f"
    by (auto simp: nRF5MultiFlash_init_def Let_def split: prod.splits sum.splits option.splits)
  with f s show ?thesis by (auto simp: page_size_of_def py_is_def)
qed

text \<open>
  Claim C7 fails on the code at \<open>program --family NRF51 -f app.hex -s 7\<close>: the family of
  the constructed object reads \<open>NRF51\<close> and its page size is 0x1000, not 0x400.
\<close>

theorem explicit_NRF51_page_size:
  "\<exists>a w nRF. parse_args [Opt_family ''NRF51'', Opt_file ''app.hex'', Opt_snrs [7]] = Inr a
     \<and> nRF5MultiFlash_init transport_ok files0 a world0 = (w, Inr nRF)
     \<and> chars (family nRF) = ''NRF51'' \<and> PAGE_SIZE nRF = 0x1000"
  by (simp add: parse_args_def group_conflict_def erase_before_flash_group_def reset_group_def
      nRF5MultiFlash_init_def resolve_snrs_def files0_def page_size_of_def py_is_def Let_def)

section \<open>Operations, steps and schedules\<close>

subsection \<open>What one operation does to the world\<close>

lemma api_call_world:
  "api_call T who h c w = (w', r) \<Longrightarrow>
   trace w' = trace w @ [(who, h, c)] \<and> next_handle w' = next_handle w
   \<and> nRF5_instances w' = nRF5_instances w
   \<and> r = (if raises T (trace w) (who, h, c) then Some APIError else None)"
  by (auto simp: api_call_def)

lemma new_MultiAPI_world:
  "new_MultiAPI T who fam w = (w', r) \<Longrightarrow>
   trace w' = trace w @ [(who, next_handle w, Construct fam)]
   \<and> next_handle w' = Suc (next_handle w)
   \<and> nRF5_instances w' = nRF5_instances w
   \<and> r = (if raises T (trace w) (who, next_handle w, Construct fam)
          then Inl APIError else Inr (next_handle w))"
  by (auto simp: new_MultiAPI_def api_call_def Let_def split: if_splits)

lemma step_New_instance:
  "step T who (New_instance d fam) w = (w', r) \<Longrightarrow>
   trace w' = trace w @ [(who, next_handle w, Construct fam)]
   \<and> next_handle w' = Suc (next_handle w)
   \<and> nRF5_instances w' =
       (if r = None then (nRF5_instances w)(d \<mapsto> next_handle w) else nRF5_instances w)"
  by (auto simp: new_MultiAPI_def api_call_def Let_def split: if_splits)

lemma step_Inst_call:
  "step T who (Inst_call d c) w = (w', r) \<Longrightarrow>
   next_handle w' = next_handle w \<and> nRF5_instances w' = nRF5_instances w
   \<and> (case nRF5_instances w d of
         None \<Rightarrow> trace w' = trace w \<and> r = Some KeyError
       | Some h \<Rightarrow> trace w' = trace w @ [(who, h, c)]
           \<and> r = (if raises T (trace w) (who, h, c) then Some APIError else None))"
  by (auto simp: api_call_def split: option.splits)

lemma step_Verify_read:
  "step T who (Verify_read d a data) w = (w', r) \<Longrightarrow>
   next_handle w' = next_handle w \<and> nRF5_instances w' = nRF5_instances w
   \<and> (case nRF5_instances w d of
         None \<Rightarrow> trace w' = trace w \<and> r = Some KeyError
       | Some h \<Rightarrow> trace w' = trace w @ [(who, h, Read a (int (length data)))])"
  by (auto simp: api_call_def split: option.splits sum.splits if_splits)

lemma step_Raise:
  "step T who (Raise e) w = (w', r) \<Longrightarrow> w' = w \<and> r = Some e"
  by auto

subsection \<open>Steps of the pool\<close>

lemma pool_step_cases:
  obtains (idle) "pool_step T i (w, ws, f) = (w, ws, f)"
  | (move) p ps w' r where "i < length ws" "ws ! i = Running (p # ps)"
      "step T (Worker i) p w = (w', r)"
      "pool_step T i (w, ws, f) =
         (w', ws[i := (case r of None \<Rightarrow> Running ps | Some e \<Rightarrow> Raised e)],
          (case r of None \<Rightarrow> f | Some e \<Rightarrow> (case f of None \<Rightarrow> Some e | Some e0 \<Rightarrow> Some e0)))"
proof (cases "i < length ws")
  case False
  then show ?thesis using idle by simp
next
  case True
  show ?thesis
  proof (cases "ws ! i")
    case (Raised e)
    with True show ?thesis using idle by simp
  next
    case (Running ops)
    show ?thesis
    proof (cases ops)
      case Nil
      with True Running show ?thesis using idle by simp
    next
      case (Cons p ps)
      obtain w' r where st: "step T (Worker i) p w = (w', r)" by (cases "step T (Worker i) p w")
      show ?thesis
        by (rule move [OF True _ st]) (use True Running Cons st in \<open>auto split: option.splits\<close>)
    qed
  qed
qed

declare pool_step.simps [simp del]

lemma run_sched_invariant:
  assumes "\<And>i st. I st \<Longrightarrow> I (pool_step T i st)" and "I st"
  shows "I (run_sched T sched st)"
  using assms(2) by (induction sched arbitrary: st) (simp_all add: assms(1))

text \<open>
  The tasks only append events of their own threads, on handles that were constructed
  after the pool started.
\<close>

lemma pool_step_fresh:
  assumes "\<exists>evs. trace (fst st) = tr0 @ evs
       \<and> (\<forall>ev \<in> set evs. fst ev \<noteq> Main_thread \<and> n0 \<le> fst (snd ev))"
    and "n0 \<le> next_handle (fst st)"
    and "\<forall>d h. nRF5_instances (fst st) d = Some h \<longrightarrow> n0 \<le> h"
  shows "(\<exists>evs. trace (fst (pool_step T i st)) = tr0 @ evs
       \<and> (\<forall>ev \<in> set evs. fst ev \<noteq> Main_thread \<and> n0 \<le> fst (snd ev)))
     \<and> n0 \<le> next_handle (fst (pool_step T i st))
     \<and> (\<forall>d h. nRF5_instances (fst (pool_step T i st)) d = Some h \<longrightarrow> n0 \<le> h)"
proof -
  obtain w ws f where st: "st = (w, ws, f)" by (cases st)
  from assms(1) st obtain evs where evs: "trace w = tr0 @ evs"
    "\<forall>ev \<in> set evs. fst ev \<noteq> Main_thread \<and> n0 \<le> fst (snd ev)" by auto
  show ?thesis
  proof (cases rule: pool_step_cases [of T i w ws f])
    case idle
    with assms st show ?thesis by simp
  next
    case (move p ps w' r)
    have "(\<exists>evs'. trace w' = tr0 @ evs'
        \<and> (\<forall>ev \<in> set evs'. fst ev \<noteq> Main_thread \<and> n0 \<le> fst (snd ev)))
      \<and> n0 \<le> next_handle w' \<and> (\<forall>d h. nRF5_instances w' d = Some h \<longrightarrow> n0 \<le> h)"
    proof (cases p)
      case (New_instance d fam)
      with move(3) step_New_instance [of T "Worker i" d fam w w' r] evs assms(2,3) st
      show ?thesis by (auto split: if_splits)
    next
      case (Inst_call d c)
      with move(3) step_Inst_call [of T "Worker i" d c w w' r] evs assms(2,3) st
      show ?thesis by (cases "nRF5_instances w d") auto
    next
      case (Verify_read d a data)
      with move(3) step_Verify_read [of T "Worker i" d a data w w' r] evs assms(2,3) st
      show ?thesis by (cases "nRF5_instances w d") auto
    next
      case (Raise e)
      with move(3) evs assms(2,3) st show ?thesis by auto
    qed
    with move(4) st show ?thesis by simp
  qed
qed

lemma run_sched_fresh:
  assumes "n0 \<le> next_handle w" and "\<forall>d h. nRF5_instances w d = Some h \<longrightarrow> n0 \<le> h"
  shows "\<exists>evs. trace (fst (run_sched T sched (w, ws, f))) = trace w @ evs
       \<and> (\<forall>ev \<in> set evs. fst ev \<noteq> Main_thread \<and> n0 \<le> fst (snd ev))"
proof -
  let ?I = "\<lambda>st. (\<exists>evs. trace (fst st) = trace w @ evs
       \<and> (\<forall>ev \<in> set evs. fst ev \<noteq> Main_thread \<and> n0 \<le> fst (snd ev)))
     \<and> n0 \<le> next_handle (fst st)
     \<and> (\<forall>d h. nRF5_instances (fst st) d = Some h \<longrightarrow> n0 \<le> h)"
  have "?I (run_sched T sched (w, ws, f))"
  proof (rule run_sched_invariant [where I = ?I])
    show "?I (pool_step T i st)" if "?I st" for i st
      using pool_step_fresh [of st "trace w" n0 T i] that by blast
    show "?I (w, ws, f)" using assms by simp
  qed
  then show ?thesis by blast
qed


section \<open>Target resolution\<close>

lemma enum_snrs_world:
  assumes "enum_snrs T w = (w', r)"
  shows "next_handle w' = Suc (next_handle w) \<and> nRF5_instances w' = nRF5_instances w
     \<and> (\<exists>evs. trace w' = trace w @ evs \<and> (\<forall>ev \<in> set evs. fst ev = Main_thread))
     \<and> (\<forall>ns. r = Inr ns \<longrightarrow>
          trace w' = trace w @
            [(Main_thread, next_handle w, Construct ''NRF51''), (Main_thread, next_handle w, Open),
             (Main_thread, next_handle w, Enum_emu_snr), (Main_thread, next_handle w, Close)]
          \<and> ns = enum_reply T (trace w @
            [(Main_thread, next_handle w, Construct ''NRF51''), (Main_thread, next_handle w, Open)]))"
  using assms
  by (auto simp: enum_snrs_def new_MultiAPI_def api_call_def Let_def split: if_splits)

lemma init_world:
  assumes "nRF5MultiFlash_init T fs a world0 = (w1, r1)" and "not_snrs (args_snrs a)"
  shows "nRF5_instances w1 = Map.empty \<and> next_handle w1 = 1
     \<and> (\<forall>ev \<in> set (trace w1). fst ev = Main_thread)
     \<and> (\<forall>nRF. r1 = Inr nRF \<longrightarrow> trace w1 =
          [(Main_thread, 0, Construct ''NRF51''), (Main_thread, 0, Open),
           (Main_thread, 0, Enum_emu_snr), (Main_thread, 0, Close)])"
proof -
  obtain w' r where e: "enum_snrs T (world0\<lparr>nRF5_instances := Map.empty\<rparr>) = (w', r)"
    by (cases "enum_snrs T (world0\<lparr>nRF5_instances := Map.empty\<rparr>)")
  from assms e have w1: "w1 = w'" and r1: "\<forall>nRF. r1 = Inr nRF \<longrightarrow> (\<exists>ns. r = Inr ns)"
    by (auto simp: nRF5MultiFlash_init_def resolve_snrs_def Let_def split: sum.splits option.splits)
  from enum_snrs_world [OF e] w1 r1 show ?thesis
    by (auto simp: world0_def)
qed

text \<open>
  Claim C8, as amended. A non-empty explicit list is returned unchanged, with no call
  to the probe library. For an absent or empty list, a resolution that returns has
  constructed one handle of its own with the fixed family \<open>'NRF51'\<close> (whatever family
  the request names), opened it, enumerated, closed it, and returns the enumerated
  serial numbers. In a run of \<open>main\<close>, once any worker has issued a call the trace
  starts with that complete session, and nothing after it is issued by the main thread
  or on the handle of the enumeration.
\<close>

theorem resolve_snrs_spec:
  "(ns \<noteq> [] \<longrightarrow> resolve_snrs T (Some ns) w = (w, Inr ns))
   \<and> (\<forall>explicit w' r. not_snrs explicit \<and> resolve_snrs T explicit w = (w', Inr r) \<longrightarrow>
        trace w' = trace w @
          [(Main_thread, next_handle w, Construct ''NRF51''), (Main_thread, next_handle w, Open),
           (Main_thread, next_handle w, Enum_emu_snr), (Main_thread, next_handle w, Close)]
        \<and> r = enum_reply T (trace w @
          [(Main_thread, next_handle w, Construct ''NRF51''), (Main_thread, next_handle w, Open)]))
   \<and> (\<forall>a. parse_args argv = Inr a \<and> not_snrs (args_snrs a)
          \<and> (\<exists>ev \<in> set (trace (fst (main T fs argv sched))). fst ev \<noteq> Main_thread) \<longrightarrow>
        (\<exists>post. trace (fst (main T fs argv sched)) =
           [(Main_thread, 0, Construct ''NRF51''), (Main_thread, 0, Open),
            (Main_thread, 0, Enum_emu_snr), (Main_thread, 0, Close)] @ post
         \<and> (\<forall>ev \<in> set post. fst ev \<noteq> Main_thread \<and> fst (snd ev) \<noteq> 0)))"
proof (intro conjI allI impI)
  assume "ns \<noteq> []"
  then show "resolve_snrs T (Some ns) w = (w, Inr ns)"
    by (simp add: resolve_snrs_def)
next
  fix explicit w' r
  assume h: "not_snrs explicit \<and> resolve_snrs T explicit w = (w', Inr r)"
  then have e: "enum_snrs T w = (w', Inr r)" by (auto simp: resolve_snrs_def)
  from enum_snrs_world [OF e]
  show "trace w' = trace w @
          [(Main_thread, next_handle w, Construct ''NRF51''), (Main_thread, next_handle w, Open),
           (Main_thread, next_handle w, Enum_emu_snr), (Main_thread, next_handle w, Close)]"
    and "r = enum_reply T (trace w @
          [(Main_thread, next_handle w, Construct ''NRF51''), (Main_thread, next_handle w, Open)])"
    by simp_all
next
  fix a
  let ?enum = "[(Main_thread, 0, Construct ''NRF51''), (Main_thread, 0, Open),
            (Main_thread, 0, Enum_emu_snr), (Main_thread, 0 :: nat, Close)]"
  assume h: "parse_args argv = Inr a \<and> not_snrs (args_snrs a)
          \<and> (\<exists>ev \<in> set (trace (fst (main T fs argv sched))). fst ev \<noteq> Main_thread)"
  obtain w1 r1 where i: "nRF5MultiFlash_init T fs a world0 = (w1, r1)"
    by (cases "nRF5MultiFlash_init T fs a world0")
  from init_world [OF i] h have w1: "nRF5_instances w1 = Map.empty" "next_handle w1 = 1"
    "\<forall>ev \<in> set (trace w1). fst ev = Main_thread"
    "\<forall>nRF. r1 = Inr nRF \<longrightarrow> trace w1 = ?enum" by auto
  show "\<exists>post. trace (fst (main T fs argv sched)) = ?enum @ post
         \<and> (\<forall>ev \<in> set post. fst ev \<noteq> Main_thread \<and> fst (snd ev) \<noteq> 0)"
  proof (cases r1)
    case (Inl e)
    with h i have "fst (main T fs argv sched) = w1" by (simp add: main_def)
    with h w1(3) show ?thesis by auto
  next
    case (Inr nRF)
    show ?thesis
    proof (cases "length (snrs nRF) < 1")
      case True
      with h i Inr have "fst (main T fs argv sched) = w1" by (simp add: main_def)
      with h w1(3) show ?thesis by auto
    next
      case False
      let ?st = "run_sched T sched (w1, map (\<lambda>x. Running (perform_command nRF x)) (snrs nRF), None)"
      from False h i Inr have m: "fst (main T fs argv sched) = fst ?st"
        by (auto simp: main_def pool_map_def split: prod.splits outcome.splits)
      from run_sched_fresh [of 1 w1 T sched _ None] w1(1,2)
      obtain evs where "trace (fst ?st) = trace w1 @ evs"
        "\<forall>ev \<in> set evs. fst ev \<noteq> Main_thread \<and> 1 \<le> fst (snd ev)"
        by (metis le_refl option.distinct(1))
      with m w1(4) Inr show ?thesis by auto
    qed
  qed
qed

theorem resolve_snrs_spec_witness:
  "resolve_snrs transport_ok (Some [7, 7, 3]) world0 = (world0, Inr [7, 7, 3])
   \<and> snd (resolve_snrs transport_ok (Some []) world0) = Inr [11, 22]
   \<and> trace (fst (resolve_snrs transport_ok (Some []) world0)) =
       [(Main_thread, 0, Construct ''NRF51''), (Main_thread, 0, Open),
        (Main_thread, 0, Enum_emu_snr), (Main_thread, 0, Close)]
   \<and> trace (fst (main transport_ok files0 [Opt_file ''app.hex''] [0, 1])) =
       [(Main_thread, 0, Construct ''NRF51''), (Main_thread, 0, Open),
        (Main_thread, 0, Enum_emu_snr), (Main_thread, 0, Close),
        (Worker 0, 1, Construct ''NRF51''), (Worker 1, 2, Construct ''NRF51'')]"
proof -
  have r: "resolve_snrs transport_ok (Some []) world0 =
      (\<lparr>trace = [(Main_thread, 0, Construct ''NRF51''), (Main_thread, 0, Open),
        (Main_thread, 0, Enum_emu_snr), (Main_thread, 0, Close)], next_handle = 1,
        nRF5_instances = Map.empty\<rparr>, Inr [11, 22])"
    by (simp add: resolve_snrs_def enum_snrs_def new_MultiAPI_def api_call_def transport_ok_def
        world0_def Let_def)
  have p: "parse_args [Opt_file ''app.hex''] = Inr \<lparr>args_eraseall = False, args_family = None,
      args_file = ''app.hex'', args_sectorserase = False, args_sectorsanduicrerase = False,
      args_snrs = None, args_systemreset = False, args_verify = False\<rparr>"
    by (simp add: parse_args_def group_conflict_def erase_before_flash_group_def reset_group_def)
  have m: "trace (fst (main transport_ok files0 [Opt_file ''app.hex''] [0, 1])) =
       [(Main_thread, 0, Construct ''NRF51''), (Main_thread, 0, Open),
        (Main_thread, 0, Enum_emu_snr), (Main_thread, 0, Close),
        (Worker 0, 1, Construct ''NRF51''), (Worker 1, 2, Construct ''NRF51'')]"
    by (simp add: main_def p nRF5MultiFlash_init_def resolve_snrs_def enum_snrs_def
        new_MultiAPI_def api_call_def transport_ok_def world0_def Let_def files0_def
        pool_map_def perform_command_def connect_to_device_def page_size_of_def py_is_def
        map_result_def pool_step.simps)
  from resolve_snrs_spec [of "[7, 7, 3]" transport_ok world0 "[Opt_file ''app.hex'']" files0 "[0, 1]"]
    r m show ?thesis by simp
qed


text \<open>
  Claim C8 as stated fails: the session of the enumeration is not opened for the given
  family. With \<open>--family NRF52\<close> and no \<open>-s\<close>, the handle of the enumeration is
  constructed for \<open>NRF51\<close>, while the worker's handle is constructed for \<open>NRF52\<close>.
\<close>

theorem enumeration_family_counterexample:
  "trace (fst (main transport_ok files0 [Opt_family ''NRF52'', Opt_file ''app.hex''] [0])) =
     [(Main_thread, 0, Construct ''NRF51''), (Main_thread, 0, Open),
      (Main_thread, 0, Enum_emu_snr), (Main_thread, 0, Close),
      (Worker 0, 1, Construct ''NRF52'')]"
proof -
  have p: "parse_args [Opt_family ''NRF52'', Opt_file ''app.hex''] = Inr \<lparr>args_eraseall = False,
      args_family = Some (Argv 0 ''NRF52''),
      args_file = ''app.hex'', args_sectorserase = False, args_sectorsanduicrerase = False,
      args_snrs = None, args_systemreset = False, args_verify = False\<rparr>"
    by (simp add: parse_args_def group_conflict_def erase_before_flash_group_def reset_group_def)
  show ?thesis
    by (simp add: main_def p nRF5MultiFlash_init_def resolve_snrs_def enum_snrs_def
        new_MultiAPI_def api_call_def transport_ok_def world0_def Let_def files0_def
        pool_map_def perform_command_def connect_to_device_def page_size_of_def py_is_def
        map_result_def pool_step.simps)
qed

section \<open>The mutually exclusive erase flags\<close>

lemma group_conflict_two:
  assumes "a \<in> set argv" "b \<in> set argv" "dest a \<noteq> dest b" "dest a \<in> set g" "dest b \<in> set g"
  shows "group_conflict g argv"
proof -
  let ?ds = "filter (\<lambda>d. d \<in> set g) (map dest argv)"
  have "{dest a, dest b} \<subseteq> set ?ds" using assms by auto
  then have "card {dest a, dest b} \<le> card (set ?ds)" by (intro card_mono) auto
  with assms(3) have "2 \<le> card (set ?ds)" by simp
  then show ?thesis
    unfolding group_conflict_def by (simp add: length_remdups_card_conv)
qed

text \<open>
  Claim C5. A command line on which more than one of the erase flags \<open>--eraseall\<close>,
  \<open>--sectorserase\<close>, \<open>--sectorsanduicrerase\<close> occurs is refused by the parser: \<open>main\<close>
  ends with \<open>SystemExit\<close> in the initial world, before the constructor, the enumeration
  and every worker, whatever the list of targets and whatever else is on the line.
\<close>

theorem erase_flags_conflict_rejected:
  assumes "1 < length (filter (\<lambda>a. a \<in> set argv)
      [Opt_eraseall, Opt_sectorserase, Opt_sectorsanduicrerase])"
  shows "main T fs argv sched = (world0, Raises SystemExit)"
proof -
  from assms obtain a b where ab: "a \<in> set argv" "b \<in> set argv" "dest a \<noteq> dest b"
    "dest a \<in> set erase_before_flash_group" "dest b \<in> set erase_before_flash_group"
    by (auto simp: erase_before_flash_group_def split: if_splits)
  then have "group_conflict erase_before_flash_group argv"
    by (rule group_conflict_two)
  then have "parse_args argv = Inl SystemExit" by (simp add: parse_args_def)
  then show ?thesis by (simp add: main_def)
qed

theorem erase_flags_conflict_rejected_witness:
  "1 < length (filter (\<lambda>a. a \<in> set [Opt_file ''app.hex'', Opt_eraseall, Opt_sectorserase, Opt_snrs [1, 2, 3]])
      [Opt_eraseall, Opt_sectorserase, Opt_sectorsanduicrerase])
   \<and> main transport_ok files0 [Opt_file ''app.hex'', Opt_eraseall, Opt_sectorserase, Opt_snrs [1, 2, 3]] [0, 1, 2]
     = (world0, Raises SystemExit)"
proof -
  have h: "1 < length (filter (\<lambda>a. a \<in> set [Opt_file ''app.hex'', Opt_eraseall, Opt_sectorserase, Opt_snrs [1, 2, 3]])
      [Opt_eraseall, Opt_sectorserase, Opt_sectorsanduicrerase])" by simp
  from h erase_flags_conflict_rejected [OF h] show ?thesis by blast
qed

section \<open>One worker, run alone\<close>

lemma nRF_plain_built:
  "\<exists>a. parse_args [Opt_file ''app.hex'', Opt_snrs [7]] = Inr a
     \<and> nRF5MultiFlash_init T files0 a world0 = (world0, Inr nRF_plain)"
  by (simp add: parse_args_def group_conflict_def erase_before_flash_group_def reset_group_def
      nRF5MultiFlash_init_def resolve_snrs_def files0_def page_size_of_def py_is_def Let_def
      nRF_plain_def world0_def)

lemma run_ops_append:
  "run_ops T who (ps @ qs) w =
     (case run_ops T who ps w of
        (w', Some e) \<Rightarrow> (w', Some e)
      | (w', None) \<Rightarrow> run_ops T who qs w')"
  by (induction ps arbitrary: w) (auto split: prod.splits option.splits)

lemma step_calls:
  assumes "step T who p w = (w', r)"
  shows "\<exists>evs. trace w' = trace w @ evs
     \<and> (\<forall>ev \<in> set evs. fst ev = who \<and> snd (snd ev) \<in> set (op_calls p))"
proof (cases p)
  case (New_instance d fam)
  with assms step_New_instance [of T who d fam w w' r] show ?thesis by auto
next
  case (Inst_call d c)
  with assms step_Inst_call [of T who d c w w' r] show ?thesis
    by (cases "nRF5_instances w d") auto
next
  case (Verify_read d a data)
  with assms step_Verify_read [of T who d a data w w' r] show ?thesis
    by (cases "nRF5_instances w d") auto
next
  case (Raise e')
  with assms show ?thesis by auto
qed

lemma step_keeps_slot:
  assumes "step T who p w = (w', r)" and "nRF5_instances w d \<noteq> None"
  shows "nRF5_instances w' d \<noteq> None"
proof (cases p)
  case (New_instance d' fam)
  with assms step_New_instance [of T who d' fam w w' r] show ?thesis by (auto split: if_splits)
next
  case (Inst_call d' c)
  with assms step_Inst_call [of T who d' c w w' r] show ?thesis by auto
next
  case (Verify_read d' a data)
  with assms step_Verify_read [of T who d' a data w w' r] show ?thesis by auto
next
  case (Raise e')
  with assms show ?thesis by auto
qed

lemma run_ops_calls:
  "run_ops T who ps w = (w', r) \<Longrightarrow>
   \<exists>evs. trace w' = trace w @ evs
     \<and> (\<forall>ev \<in> set evs. fst ev = who \<and> snd (snd ev) \<in> set (concat (map op_calls ps)))"
proof (induction ps arbitrary: w)
  case Nil
  then show ?case by simp
next
  case (Cons p ps)
  obtain w1 r1 where s: "step T who p w = (w1, r1)" by (cases "step T who p w")
  from step_calls [OF s] obtain evs1 where e1: "trace w1 = trace w @ evs1"
    "\<forall>ev \<in> set evs1. fst ev = who \<and> snd (snd ev) \<in> set (op_calls p)" by blast
  show ?case
  proof (cases r1)
    case (Some e)
    with Cons.prems s have "w' = w1" by simp
    with e1 show ?thesis by auto
  next
    case None
    with Cons.prems s have "run_ops T who ps w1 = (w', r)" by simp
    from Cons.IH [OF this] obtain evs2 where e2: "trace w' = trace w1 @ evs2"
      "\<forall>ev \<in> set evs2. fst ev = who \<and> snd (snd ev) \<in> set (concat (map op_calls ps))" by blast
    from e1 e2 have "trace w' = trace w @ (evs1 @ evs2)" by simp
    moreover from e1 e2 have "\<forall>ev \<in> set (evs1 @ evs2). fst ev = who
        \<and> snd (snd ev) \<in> set (concat (map op_calls (p # ps)))" by auto
    ultimately show ?thesis by blast
  qed
qed

lemma run_ops_keeps_slot:
  "run_ops T who ps w = (w', r) \<Longrightarrow> nRF5_instances w d \<noteq> None \<Longrightarrow> nRF5_instances w' d \<noteq> None"
proof (induction ps arbitrary: w)
  case Nil
  then show ?case by simp
next
  case (Cons p ps)
  obtain w1 r1 where s: "step T who p w = (w1, r1)" by (cases "step T who p w")
  from step_keeps_slot [OF s Cons.prems(2)] have k: "nRF5_instances w1 d \<noteq> None" .
  show ?case
  proof (cases r1)
    case (Some e)
    with Cons.prems s k show ?thesis by simp
  next
    case None
    with Cons.prems s have "run_ops T who ps w1 = (w', r)" by simp
    from Cons.IH [OF this k] show ?thesis .
  qed
qed

lemma connected_has_slot:
  assumes "run_ops T who (connect_to_device self d @ rest) w = (w', None)"
  shows "nRF5_instances w' d \<noteq> None"
proof -
  obtain w1 r1 where s: "step T who (New_instance d (chars (family self))) w = (w1, r1)"
    by (cases "step T who (New_instance d (chars (family self))) w")
  with assms have r1: "r1 = None"
    by (cases r1) (auto simp: connect_to_device_def simp del: step.simps)
  with step_New_instance [OF s] have k: "nRF5_instances w1 d \<noteq> None" by simp
  from assms s r1 have "run_ops T who
      ([Inst_call d Open, Inst_call d (Connect_to_emu_with_snr d)] @ rest) w1 = (w', None)"
    by (simp add: connect_to_device_def del: step.simps)
  from run_ops_keeps_slot [OF this k] show ?thesis .
qed

lemma program_segment_calls:
  assumes "c \<in> set (concat (map op_calls (program_segment self d seg)))"
  shows "c \<noteq> Disconnect_from_emu \<and> c \<noteq> Close"
proof (cases "erase_pages (PAGE_SIZE self) (fst seg) (snd seg)")
  case (Inl e)
  with assms show ?thesis
    by (auto simp: program_segment_def Let_def split: if_splits)
next
  case (Inr pages)
  with assms show ?thesis
    by (auto simp: program_segment_def Let_def split: if_splits)
qed

lemma program_calls_no_cleanup:
  assumes "c \<in> set (concat (map op_calls (connect_to_device self d @ program_device self d)))"
  shows "c \<noteq> Disconnect_from_emu \<and> c \<noteq> Close"
proof -
  from assms consider
    (connect) "c \<in> set (concat (map op_calls (connect_to_device self d)))"
    | (prepare) "c \<in> {Recover, Erase_uicr}"
    | (segment) seg where "c \<in> set (concat (map op_calls (program_segment self d seg)))"
    by (auto simp: program_device_def split: if_splits)
  then show ?thesis
  proof cases
    case connect
    then show ?thesis by (auto simp: connect_to_device_def)
  next
    case prepare
    then show ?thesis by auto
  next
    case (segment seg)
    then show ?thesis by (rule program_segment_calls)
  qed
qed

text \<open>
  Claim C3, as amended. When the connect and program phases end without an exception,
  the worker goes on to the cleanup: it disconnects from the emulator and then, unless
  the disconnect raises, closes the handle. When one of them raises (in the connect,
  erase, write, verify or reset step), the worker ends with that exception at once:
  \<open>perform_command\<close> has no handler, and no disconnect and no close has been issued.
\<close>

theorem cleanup_only_on_success:
  "(case run_ops T who (connect_to_device self device @ program_device self device) w of
      (w1, Some e) \<Rightarrow>
        run_ops T who (perform_command self device) w = (w1, Some e)
        \<and> (\<forall>ev \<in> set (drop (length (trace w)) (trace w1)).
              snd (snd ev) \<noteq> Disconnect_from_emu \<and> snd (snd ev) \<noteq> Close)
    | (w1, None) \<Rightarrow>
        (\<exists>h. nRF5_instances w1 device = Some h
           \<and> trace (fst (run_ops T who (perform_command self device) w)) =
               trace w1 @ (who, h, Disconnect_from_emu)
                 # (if raises T (trace w1) (who, h, Disconnect_from_emu) then []
                    else [(who, h, Close)])))"
proof -
  let ?body = "connect_to_device self device @ program_device self device"
  obtain w1 r1 where b: "run_ops T who ?body w = (w1, r1)" by (cases "run_ops T who ?body w")
  have pc: "perform_command self device = ?body @ cleanup device"
    by (simp add: perform_command_def)
  show ?thesis
  proof (cases r1)
    case (Some e)
    from b Some have "run_ops T who (perform_command self device) w = (w1, Some e)"
      unfolding pc using run_ops_append [of T who ?body "cleanup device" w] by simp
    moreover from run_ops_calls [OF b] obtain evs where "trace w1 = trace w @ evs"
      "\<forall>ev \<in> set evs. snd (snd ev) \<in> set (concat (map op_calls ?body))" by blast
    then have "\<forall>ev \<in> set (drop (length (trace w)) (trace w1)).
        snd (snd ev) \<noteq> Disconnect_from_emu \<and> snd (snd ev) \<noteq> Close"
      using program_calls_no_cleanup [of _ self device] by auto
    ultimately show ?thesis using b Some by simp
  next
    case None
    with b have "run_ops T who (connect_to_device self device @ program_device self device) w = (w1, None)"
      by simp
    from connected_has_slot [OF this] obtain h where h: "nRF5_instances w1 device = Some h"
      by auto
    have "run_ops T who (perform_command self device) w = run_ops T who (cleanup device) w1"
      unfolding pc using run_ops_append [of T who ?body "cleanup device" w] b None by simp
    then have "trace (fst (run_ops T who (perform_command self device) w)) =
        trace w1 @ (who, h, Disconnect_from_emu)
          # (if raises T (trace w1) (who, h, Disconnect_from_emu) then [] else [(who, h, Close)])"
      using h by (simp add: cleanup_def api_call_def)
    with h b None show ?thesis by simp
  qed
qed


lemma perform_command_plain:
  "perform_command nRF_plain 7 =
     [New_instance 7 ''NRF51'', Inst_call 7 Open, Inst_call 7 (Connect_to_emu_with_snr 7),
      Inst_call 7 (Write 0x1000 [0xFF, 0xFF, 0xFF, 0xFF] True),
      Inst_call 7 (Write 0x2000 [0xFF, 0xFF] True),
      Inst_call 7 Disconnect_from_emu, Inst_call 7 Close]"
  by (simp add: perform_command_def connect_to_device_def program_device_def
      program_segment_def cleanup_def nRF_plain_def hex_two_segments_def Let_def
      eval_nat_numeral)

lemma run_plain_ok:
  "run_ops transport_ok (Worker 0) (perform_command nRF_plain 7) world0 =
     (\<lparr>trace =
        [(Worker 0, 0, Construct ''NRF51''), (Worker 0, 0, Open),
         (Worker 0, 0, Connect_to_emu_with_snr 7),
         (Worker 0, 0, Write 0x1000 [0xFF, 0xFF, 0xFF, 0xFF] True),
         (Worker 0, 0, Write 0x2000 [0xFF, 0xFF] True),
         (Worker 0, 0, Disconnect_from_emu), (Worker 0, 0, Close)],
       next_handle = 1, nRF5_instances = [7 \<mapsto> 0]\<rparr>, None)"
  by (simp add: perform_command_plain new_MultiAPI_def api_call_def transport_ok_def
      world0_def Let_def)

text \<open>
  Claim C3 as stated fails: with a write that raises, the worker ends with the
  exception after the write, and the handle that it opened is neither disconnected nor
  closed.
\<close>

theorem cleanup_skipped_counterexample:
  "run_ops transport_write_fails (Worker 0) (perform_command nRF_plain 7) world0 =
     (\<lparr>trace =
        [(Worker 0, 0, Construct ''NRF51''), (Worker 0, 0, Open),
         (Worker 0, 0, Connect_to_emu_with_snr 7),
         (Worker 0, 0, Write 0x1000 [0xFF, 0xFF, 0xFF, 0xFF] True)],
       next_handle = 1, nRF5_instances = [7 \<mapsto> 0]\<rparr>, Some APIError)"
  by (simp add: perform_command_plain new_MultiAPI_def api_call_def transport_write_fails_def
      world0_def Let_def)

theorem cleanup_only_on_success_witness:
  "trace (fst (run_ops transport_ok (Worker 0) (perform_command nRF_plain 7) world0)) =
     [(Worker 0, 0, Construct ''NRF51''), (Worker 0, 0, Open),
      (Worker 0, 0, Connect_to_emu_with_snr 7),
      (Worker 0, 0, Write 0x1000 [0xFF, 0xFF, 0xFF, 0xFF] True),
      (Worker 0, 0, Write 0x2000 [0xFF, 0xFF] True)]
     @ [(Worker 0, 0, Disconnect_from_emu), (Worker 0, 0, Close)]
   \<and> snd (run_ops transport_write_fails (Worker 0) (perform_command nRF_plain 7) world0)
       = Some APIError
   \<and> trace (fst (run_ops transport_write_fails (Worker 0) (perform_command nRF_plain 7) world0)) =
     [(Worker 0, 0, Construct ''NRF51''), (Worker 0, 0, Open),
      (Worker 0, 0, Connect_to_emu_with_snr 7),
      (Worker 0, 0, Write 0x1000 [0xFF, 0xFF, 0xFF, 0xFF] True)]"
proof -
  have f: "run_ops transport_write_fails (Worker 0) (perform_command nRF_plain 7) world0 =
     (\<lparr>trace =
        [(Worker 0, 0, Construct ''NRF51''), (Worker 0, 0, Open),
         (Worker 0, 0, Connect_to_emu_with_snr 7),
         (Worker 0, 0, Write 0x1000 [0xFF, 0xFF, 0xFF, 0xFF] True)],
       next_handle = 1, nRF5_instances = [7 \<mapsto> 0]\<rparr>, Some APIError)"
    by (simp add: perform_command_plain new_MultiAPI_def api_call_def transport_write_fails_def
        world0_def Let_def)
  from cleanup_only_on_success [where T = transport_ok and who = "Worker 0"
        and self = nRF_plain and device = 7 and w = world0]
    cleanup_only_on_success [where T = transport_write_fails and who = "Worker 0"
        and self = nRF_plain and device = 7 and w = world0]
    run_plain_ok f
  show ?thesis by simp
qed

section \<open>The system reset\<close>

lemma program_segment_resets:
  "length (filter (\<lambda>p. p = Inst_call d Sys_reset) (program_segment self d seg)) =
     (if systemreset self then 1 else 0)"
proof (cases "erase_pages (PAGE_SIZE self) (fst seg) (snd seg)")
  case (Inl e)
  then show ?thesis by (simp add: program_segment_def Let_def)
next
  case (Inr pages)
  have "filter (\<lambda>p. p = Inst_call d Sys_reset) (map (\<lambda>a. Inst_call d (Erase_page a)) pages) = []"
    by (induction pages) auto
  with Inr show ?thesis by (simp add: program_segment_def Let_def)
qed

text \<open>The loop body holds the reset: the operations of a worker have one reset per segment.\<close>

lemma program_device_resets:
  "length (filter (\<lambda>p. p = Inst_call d Sys_reset) (program_device self d)) =
     (if systemreset self then length (segments (hex_file self)) else 0)"
proof -
  have "length (filter (\<lambda>p. p = Inst_call d Sys_reset) (concat (map (program_segment self d) segs))) =
      (if systemreset self then length segs else 0)" for segs
    by (induction segs) (simp_all add: program_segment_resets)
  then show ?thesis by (simp add: program_device_def)
qed

text \<open>
  Claim C2 fails on the code: for the hex file of two segments and \<open>--systemreset\<close>,
  the worker resets the target twice, the first time between the write of the first
  segment and the write of the second.
\<close>

theorem systemreset_after_each_segment:
  "run_ops transport_ok (Worker 0) (perform_command (nRF_plain\<lparr>systemreset := True\<rparr>) 7) world0 =
     (\<lparr>trace =
        [(Worker 0, 0, Construct ''NRF51''), (Worker 0, 0, Open),
         (Worker 0, 0, Connect_to_emu_with_snr 7),
         (Worker 0, 0, Write 0x1000 [0xFF, 0xFF, 0xFF, 0xFF] True),
         (Worker 0, 0, Sys_reset),
         (Worker 0, 0, Write 0x2000 [0xFF, 0xFF] True),
         (Worker 0, 0, Sys_reset),
         (Worker 0, 0, Disconnect_from_emu), (Worker 0, 0, Close)],
       next_handle = 1, nRF5_instances = [7 \<mapsto> 0]\<rparr>, None)"
  by (simp add: perform_command_def connect_to_device_def program_device_def
      program_segment_def cleanup_def nRF_plain_def hex_two_segments_def Let_def
      eval_nat_numeral new_MultiAPI_def api_call_def transport_ok_def world0_def)

section \<open>Handles and their workers\<close>

lemma owns_handle_lt: "owns xs evs w \<Longrightarrow> ev \<in> set evs \<Longrightarrow> fst (snd ev) < next_handle w"
  unfolding owns_def by blast

lemma owns_constructed:
  "owns xs evs w \<Longrightarrow> ev \<in> set evs \<Longrightarrow>
   \<exists>i fam. i < length xs \<and> fst ev = Worker i \<and> (Worker i, fst (snd ev), Construct fam) \<in> set evs"
  unfolding owns_def by blast

lemma owns_one_thread:
  "owns xs evs w \<Longrightarrow> ev \<in> set evs \<Longrightarrow> ev' \<in> set evs \<Longrightarrow>
   fst (snd ev) = fst (snd ev') \<Longrightarrow> fst ev = fst ev'"
  unfolding owns_def by blast

lemma owns_slot:
  "owns xs evs w \<Longrightarrow> i < length xs \<Longrightarrow> nRF5_instances w (xs ! i) = Some h \<Longrightarrow>
   \<exists>fam. (Worker i, h, Construct fam) \<in> set evs"
  unfolding owns_def by blast

lemma owns_call:
  assumes o: "owns xs evs w" and i: "i < length xs"
    and h: "nRF5_instances w (xs ! i) = Some h"
    and w': "next_handle w' = next_handle w" "nRF5_instances w' = nRF5_instances w"
  shows "owns xs (evs @ [(Worker i, h, c)]) w'"
proof -
  let ?e = "(Worker i, h, c)"
  from owns_slot [OF o i h] obtain fam where c: "(Worker i, h, Construct fam) \<in> set evs" ..
  have same: "fst ev = Worker i" if "ev \<in> set evs" "fst (snd ev) = h" for ev
    using owns_one_thread [OF o that(1) c] that(2) by simp
  from owns_handle_lt [OF o c] have lt: "h < next_handle w" by simp
  have 1: "fst (snd ev) < next_handle w'" if "ev \<in> set (evs @ [?e])" for ev
  proof (cases "ev \<in> set evs")
    case True
    from owns_handle_lt [OF o True] w' show ?thesis by simp
  next
    case False
    with that have "ev = ?e" by simp
    with lt w' show ?thesis by simp
  qed
  have 2: "\<exists>j fam. j < length xs \<and> fst ev = Worker j
            \<and> (Worker j, fst (snd ev), Construct fam) \<in> set (evs @ [?e])"
    if "ev \<in> set (evs @ [?e])" for ev
  proof (cases "ev \<in> set evs")
    case True
    from owns_constructed [OF o True] obtain j fam' where "j < length xs" "fst ev = Worker j"
      "(Worker j, fst (snd ev), Construct fam') \<in> set evs" by blast
    then have "j < length xs \<and> fst ev = Worker j
        \<and> (Worker j, fst (snd ev), Construct fam') \<in> set (evs @ [?e])" by simp
    then show ?thesis by blast
  next
    case False
    with that have "ev = ?e" by simp
    with i c have "i < length xs \<and> fst ev = Worker i
        \<and> (Worker i, fst (snd ev), Construct fam) \<in> set (evs @ [?e])" by simp
    then show ?thesis by blast
  qed
  have 3: "fst ev = fst ev'"
    if "ev \<in> set (evs @ [?e])" "ev' \<in> set (evs @ [?e])" "fst (snd ev) = fst (snd ev')" for ev ev'
  proof (cases "ev \<in> set evs")
    case a: True
    show ?thesis
    proof (cases "ev' \<in> set evs")
      case True
      from owns_one_thread [OF o a True that(3)] show ?thesis .
    next
      case False
      with that(2) have e': "ev' = ?e" by simp
      with that(3) same [OF a] show ?thesis by simp
    qed
  next
    case False
    with that(1) have e: "ev = ?e" by simp
    show ?thesis
    proof (cases "ev' \<in> set evs")
      case True
      with that(3) e same [OF True] show ?thesis by simp
    next
      case False
      with that(2) e show ?thesis by simp
    qed
  qed
  have 4: "\<exists>fam. (Worker j, h', Construct fam) \<in> set (evs @ [?e])"
    if "j < length xs" "nRF5_instances w' (xs ! j) = Some h'" for j h'
  proof -
    from that w' have "nRF5_instances w (xs ! j) = Some h'" by simp
    from owns_slot [OF o that(1) this] obtain fam' where
      "(Worker j, h', Construct fam') \<in> set evs" ..
    then have "(Worker j, h', Construct fam') \<in> set (evs @ [?e])" by simp
    then show ?thesis ..
  qed
  show ?thesis
    unfolding owns_def using 1 2 3 4 by blast
qed

lemma owns_new:
  assumes o: "owns xs evs w" and i: "i < length xs" and d: "distinct xs"
    and w': "next_handle w' = Suc (next_handle w)"
      "nRF5_instances w' = (nRF5_instances w)(xs ! i \<mapsto> next_handle w) \<or> nRF5_instances w' = nRF5_instances w"
  shows "owns xs (evs @ [(Worker i, next_handle w, Construct fam)]) w'"
proof -
  let ?e = "(Worker i, next_handle w, Construct fam)"
  have fresh: "fst (snd ev) \<noteq> next_handle w" if "ev \<in> set evs" for ev
    using owns_handle_lt [OF o that] by simp
  have 1: "fst (snd ev) < next_handle w'" if "ev \<in> set (evs @ [?e])" for ev
  proof (cases "ev \<in> set evs")
    case True
    from owns_handle_lt [OF o True] w' show ?thesis by simp
  next
    case False
    with that have "ev = ?e" by simp
    with w' show ?thesis by simp
  qed
  have 2: "\<exists>j fam'. j < length xs \<and> fst ev = Worker j
            \<and> (Worker j, fst (snd ev), Construct fam') \<in> set (evs @ [?e])"
    if "ev \<in> set (evs @ [?e])" for ev
  proof (cases "ev \<in> set evs")
    case True
    from owns_constructed [OF o True] obtain j fam' where "j < length xs" "fst ev = Worker j"
      "(Worker j, fst (snd ev), Construct fam') \<in> set evs" by blast
    then have "j < length xs \<and> fst ev = Worker j
        \<and> (Worker j, fst (snd ev), Construct fam') \<in> set (evs @ [?e])" by simp
    then show ?thesis by blast
  next
    case False
    with that have "ev = ?e" by simp
    with i have "i < length xs \<and> fst ev = Worker i
        \<and> (Worker i, fst (snd ev), Construct fam) \<in> set (evs @ [?e])" by simp
    then show ?thesis by blast
  qed
  have 3: "fst ev = fst ev'"
    if "ev \<in> set (evs @ [?e])" "ev' \<in> set (evs @ [?e])" "fst (snd ev) = fst (snd ev')" for ev ev'
  proof (cases "ev \<in> set evs")
    case a: True
    show ?thesis
    proof (cases "ev' \<in> set evs")
      case True
      from owns_one_thread [OF o a True that(3)] show ?thesis .
    next
      case False
      with that(2) have "ev' = ?e" by simp
      with that(3) fresh [OF a] show ?thesis by simp
    qed
  next
    case False
    with that(1) have e: "ev = ?e" by simp
    show ?thesis
    proof (cases "ev' \<in> set evs")
      case True
      with that(3) e fresh [OF True] show ?thesis by simp
    next
      case False
      with that(2) e show ?thesis by simp
    qed
  qed
  have 4: "\<exists>fam'. (Worker j, h', Construct fam') \<in> set (evs @ [?e])"
    if j: "j < length xs" and s: "nRF5_instances w' (xs ! j) = Some h'" for j h'
  proof (cases "j = i \<and> h' = next_handle w")
    case True
    then have "(Worker j, h', Construct fam) \<in> set (evs @ [?e])" by simp
    then show ?thesis ..
  next
    case False
    have "nRF5_instances w (xs ! j) = Some h'"
    proof (cases "j = i")
      case True
      with False s w'(2) show ?thesis by auto
    next
      case ne: False
      with i j d have "xs ! j \<noteq> xs ! i" by (simp add: nth_eq_iff_index_eq)
      with s w'(2) show ?thesis by auto
    qed
    from owns_slot [OF o j this] obtain fam' where "(Worker j, h', Construct fam') \<in> set evs" ..
    then have "(Worker j, h', Construct fam') \<in> set (evs @ [?e])" by simp
    then show ?thesis ..
  qed
  show ?thesis
    unfolding owns_def using 1 2 3 4 by blast
qed

lemma owns_same:
  assumes "owns xs evs w" "next_handle w' = next_handle w" "nRF5_instances w' = nRF5_instances w"
  shows "owns xs evs w'"
  using assms(1) unfolding owns_def assms(2,3) .

lemma step_owns:
  assumes s: "step T (Worker i) p w = (w', r)"
    and dev: "op_device p = Some (xs ! i) \<or> op_device p = None"
    and i: "i < length xs" and d: "distinct xs"
    and t: "trace w = tr0 @ evs" and o: "owns xs evs w"
  shows "\<exists>evs'. trace w' = tr0 @ evs' \<and> owns xs evs' w'"
proof (cases p)
  case (New_instance dv fam)
  with dev have dv: "dv = xs ! i" by simp
  from step_New_instance [of T "Worker i" dv fam w w' r] s New_instance
  have w': "trace w' = trace w @ [(Worker i, next_handle w, Construct fam)]"
    "next_handle w' = Suc (next_handle w)"
    "nRF5_instances w' = (nRF5_instances w)(xs ! i \<mapsto> next_handle w) \<or> nRF5_instances w' = nRF5_instances w"
    unfolding dv by (auto split: if_splits)
  from owns_new [OF o i d w'(2,3)] w'(1) t show ?thesis by auto
next
  case (Inst_call dv c)
  with dev have dv: "dv = xs ! i" by simp
  from step_Inst_call [of T "Worker i" dv c w w' r] s Inst_call
  have w': "next_handle w' = next_handle w" "nRF5_instances w' = nRF5_instances w"
    and tr: "case nRF5_instances w (xs ! i) of None \<Rightarrow> trace w' = trace w
       | Some h \<Rightarrow> trace w' = trace w @ [(Worker i, h, c)]"
    unfolding dv by (auto split: option.splits)
  show ?thesis
  proof (cases "nRF5_instances w (xs ! i)")
    case None
    with tr t owns_same [OF o w'] show ?thesis by auto
  next
    case (Some h)
    with tr t owns_call [OF o i Some w'] show ?thesis by auto
  qed
next
  case (Verify_read dv a data)
  with dev have dv: "dv = xs ! i" by simp
  from step_Verify_read [of T "Worker i" dv a data w w' r] s Verify_read
  have w': "next_handle w' = next_handle w" "nRF5_instances w' = nRF5_instances w"
    and tr: "case nRF5_instances w (xs ! i) of None \<Rightarrow> trace w' = trace w
       | Some h \<Rightarrow> trace w' = trace w @ [(Worker i, h, Read a (int (length data)))]"
    unfolding dv by (auto split: option.splits)
  show ?thesis
  proof (cases "nRF5_instances w (xs ! i)")
    case None
    with tr t owns_same [OF o w'] show ?thesis by auto
  next
    case (Some h)
    with tr t owns_call [OF o i Some w'] show ?thesis by auto
  qed
next
  case (Raise e)
  with s t o show ?thesis by auto
qed


lemma program_segment_device:
  assumes "p \<in> set (program_segment self d seg)"
  shows "op_device p = Some d \<or> op_device p = None"
proof (cases "erase_pages (PAGE_SIZE self) (fst seg) (snd seg)")
  case (Inl e)
  with assms show ?thesis
    by (auto simp: program_segment_def Let_def split: if_splits)
next
  case (Inr pages)
  with assms show ?thesis
    by (auto simp: program_segment_def Let_def split: if_splits)
qed

lemma perform_command_device:
  assumes "p \<in> set (perform_command self d)"
  shows "op_device p = Some d \<or> op_device p = None"
proof -
  from assms consider
    (connect) "p \<in> set (connect_to_device self d)"
    | (prepare) "p \<in> {Inst_call d Recover, Inst_call d Erase_uicr}"
    | (segment) seg where "p \<in> set (program_segment self d seg)"
    | (cleanup) "p \<in> set (cleanup d)"
    by (auto simp: perform_command_def program_device_def split: if_splits)
  then show ?thesis
  proof cases
    case connect
    then show ?thesis by (auto simp: connect_to_device_def)
  next
    case prepare
    then show ?thesis by auto
  next
    case (segment seg)
    then show ?thesis by (rule program_segment_device)
  next
    case cleanup
    then show ?thesis by (auto simp: cleanup_def)
  qed
qed

lemma pool_step_owns:
  assumes d: "distinct xs" and inv: "pool_owns xs tr0 st"
  shows "pool_owns xs tr0 (pool_step T i st)"
proof -
  obtain w ws f where st: "st = (w, ws, f)" by (cases st)
  from inv st have len: "length ws = length xs"
    and dev: "\<And>j ops. j < length xs \<Longrightarrow> ws ! j = Running ops \<Longrightarrow>
        \<forall>p \<in> set ops. op_device p = Some (xs ! j) \<or> op_device p = None"
    and own: "\<exists>evs. trace w = tr0 @ evs \<and> owns xs evs w"
    unfolding pool_owns_def by simp_all
  from own obtain evs where evs: "trace w = tr0 @ evs" "owns xs evs w" by blast
  show ?thesis
  proof (cases rule: pool_step_cases [of T i w ws f])
    case idle
    with inv st show ?thesis by simp
  next
    case (move p ps w' r)
    from move(1) len have i: "i < length xs" by simp
    from dev [OF i move(2)] have pd: "op_device p = Some (xs ! i) \<or> op_device p = None"
      and psd: "\<forall>q \<in> set ps. op_device q = Some (xs ! i) \<or> op_device q = None"
      by simp_all
    from step_owns [OF move(3) pd i d evs]
    have 3: "\<exists>evs'. trace w' = tr0 @ evs' \<and> owns xs evs' w'" .
    let ?ws' = "ws[i := (case r of None \<Rightarrow> Running ps | Some e \<Rightarrow> Raised e)]"
    have 1: "length ?ws' = length xs" using len by simp
    have 2: "\<forall>q \<in> set ops. op_device q = Some (xs ! j) \<or> op_device q = None"
      if j: "j < length xs" and r: "?ws' ! j = Running ops" for j ops
    proof (cases "j = i")
      case True
      with r move(1) have "ops = ps" by (cases r) simp_all
      with psd True show ?thesis by simp
    next
      case False
      with r have "ws ! j = Running ops" by simp
      from dev [OF j this] show ?thesis .
    qed
    have "pool_owns xs tr0 (w', ?ws', (case r of None \<Rightarrow> f
        | Some e \<Rightarrow> (case f of None \<Rightarrow> Some e | Some e0 \<Rightarrow> Some e0)))"
      unfolding pool_owns_def fst_conv snd_conv
    proof (intro conjI allI impI)
      show "length ?ws' = length xs" by (rule 1)
      show "\<forall>q \<in> set ops. op_device q = Some (xs ! j) \<or> op_device q = None"
        if "j < length xs" "?ws' ! j = Running ops" for j ops
        using that by (rule 2)
      show "\<exists>evs'. trace w' = tr0 @ evs' \<and> owns xs evs' w'" by (rule 3)
    qed
    with move(4) st show ?thesis by simp
  qed
qed

text \<open>
  Claim C9, as amended. For a list of pairwise distinct target identifiers, none of
  which has a slot in the dictionary when the pool starts (the constructor leaves the
  dictionary empty), under every schedule of the workers: every call that a worker
  issues is on a handle that this same worker constructed, and no handle receives calls
  of two workers.
\<close>

theorem distinct_targets_own_handles:
  assumes "distinct xs" and "\<forall>x \<in> set xs. nRF5_instances w x = None"
  shows "\<exists>evs. trace (fst (run_sched T sched
        (w, map (\<lambda>x. Running (perform_command self x)) xs, None))) = trace w @ evs
     \<and> (\<forall>ev \<in> set evs. \<exists>i fam. i < length xs \<and> fst ev = Worker i
           \<and> (Worker i, fst (snd ev), Construct fam) \<in> set evs)
     \<and> (\<forall>ev \<in> set evs. \<forall>ev' \<in> set evs. fst (snd ev) = fst (snd ev') \<longrightarrow> fst ev = fst ev')"
proof -
  let ?st0 = "(w, map (\<lambda>x. Running (perform_command self x)) xs, None :: error option)"
  have "pool_owns xs (trace w) (run_sched T sched ?st0)"
  proof (rule run_sched_invariant [where I = "pool_owns xs (trace w)"])
    show "pool_owns xs (trace w) (pool_step T i st)" if "pool_owns xs (trace w) st" for i st
      using assms(1) that by (rule pool_step_owns)
    have o: "owns xs [] w" using assms(2) by (simp add: owns_def)
    have dv: "\<forall>p \<in> set ops. op_device p = Some (xs ! j) \<or> op_device p = None"
      if "j < length xs" "map (\<lambda>x. Running (perform_command self x)) xs ! j = Running ops"
      for j ops
    proof -
      from that have "ops = perform_command self (xs ! j)" by simp
      show ?thesis
      proof
        fix p assume "p \<in> set ops"
        with \<open>ops = perform_command self (xs ! j)\<close>
        have "p \<in> set (perform_command self (xs ! j))" by simp
        then show "op_device p = Some (xs ! j) \<or> op_device p = None"
          by (rule perform_command_device)
      qed
    qed
    have t: "trace w = trace w @ [] \<and> owns xs [] w" using o by simp
    show "pool_owns xs (trace w) ?st0"
      unfolding pool_owns_def fst_conv snd_conv
    proof (intro conjI allI impI)
      show "length (map (\<lambda>x. Running (perform_command self x)) xs) = length xs" by simp
      show "\<forall>p \<in> set ops. op_device p = Some (xs ! j) \<or> op_device p = None"
        if "j < length xs" "map (\<lambda>x. Running (perform_command self x)) xs ! j = Running ops"
        for j ops
        using that by (rule dv)
      show "\<exists>evs. trace w = trace w @ evs \<and> owns xs evs w"
        using t by (rule exI)
    qed
  qed
  then obtain evs where evs: "trace (fst (run_sched T sched ?st0)) = trace w @ evs"
    "owns xs evs (fst (run_sched T sched ?st0))" unfolding pool_owns_def by blast
  have a: "\<forall>ev \<in> set evs. \<exists>i fam. i < length xs \<and> fst ev = Worker i
           \<and> (Worker i, fst (snd ev), Construct fam) \<in> set evs"
    using owns_constructed [OF evs(2)] by blast
  have b: "\<forall>ev \<in> set evs. \<forall>ev' \<in> set evs. fst (snd ev) = fst (snd ev') \<longrightarrow> fst ev = fst ev'"
    using owns_one_thread [OF evs(2)] by blast
  from evs(1) a b show ?thesis by blast
qed

lemma run_two_plain:
  "run_sched transport_ok [0, 1, 0, 1]
     (world0, map (\<lambda>x. Running (perform_command nRF_plain x)) [a, b], None) = st
   \<Longrightarrow> trace (fst st) =
     [(Worker 0, 0, Construct ''NRF51''), (Worker 1, 1, Construct ''NRF51''),
      (Worker 0, if a = b then 1 else 0, Open), (Worker 1, 1, Open)]"
  by (auto simp: perform_command_def connect_to_device_def new_MultiAPI_def api_call_def
      transport_ok_def world0_def Let_def pool_step.simps nRF_plain_def)

theorem distinct_targets_own_handles_witness:
  "distinct [7, 8 :: int] \<and> nRF5_instances world0 7 = None \<and> nRF5_instances world0 8 = None
   \<and> trace (fst (run_sched transport_ok [0, 1, 0, 1]
        (world0, map (\<lambda>x. Running (perform_command nRF_plain x)) [7, 8], None))) =
     [(Worker 0, 0, Construct ''NRF51''), (Worker 1, 1, Construct ''NRF51''),
      (Worker 0, 0, Open), (Worker 1, 1, Open)]"
proof -
  have h: "distinct [7, 8 :: int]" "\<forall>x \<in> set [7, 8 :: int]. nRF5_instances world0 x = None"
    by (simp_all add: world0_def)
  from distinct_targets_own_handles [OF h, of transport_ok "[0, 1, 0, 1]" nRF_plain]
    run_two_plain [OF refl, of 7 8] h
  show ?thesis by simp
qed

text \<open>
  Claim C9 as stated fails: for the target list \<open>[7, 7]\<close> both workers store their handle
  in the one slot \<open>nRF5_instances[7]\<close>. When the second worker constructs its handle
  before the first one opens, the first worker opens the handle of the second, which
  the second then opens too; the handle that the first worker constructed is never
  used again.
\<close>

theorem duplicate_targets_share_counterexample:
  "trace (fst (run_sched transport_ok [0, 1, 0, 1]
        (world0, map (\<lambda>x. Running (perform_command nRF_plain x)) [7, 7], None))) =
     [(Worker 0, 0, Construct ''NRF51''), (Worker 1, 1, Construct ''NRF51''),
      (Worker 0, 1, Open), (Worker 1, 1, Open)]"
  using run_two_plain [OF refl, of 7 7] by simp

section \<open>What the pool returns\<close>

lemma step_ok_logged:
  assumes "step T who p w = (w', None)" and "c \<in> set (op_calls p)"
  shows "\<exists>h. (who, h, c) \<in> set (trace w')"
proof (cases p)
  case (New_instance d fam)
  with assms step_New_instance [of T who d fam w w' None] show ?thesis by auto
next
  case (Inst_call d c')
  with assms step_Inst_call [of T who d c' w w' None] show ?thesis
    by (cases "nRF5_instances w d") auto
next
  case (Verify_read d a data)
  with assms step_Verify_read [of T who d a data w w' None] show ?thesis
    by (cases "nRF5_instances w d") auto
next
  case (Raise e)
  with assms show ?thesis by simp
qed

lemma step_trace_grows:
  assumes "step T who p w = (w', r)"
  shows "set (trace w) \<subseteq> set (trace w')"
  using step_calls [OF assms] by auto

lemma pool_step_done:
  assumes inv: "pool_done script xs st"
  shows "pool_done script xs (pool_step T i st)"
proof -
  obtain w ws f where st: "st = (w, ws, f)" by (cases st)
  from inv st have len: "length ws = length xs"
    and dn: "\<And>j ops. j < length xs \<Longrightarrow> ws ! j = Running ops \<Longrightarrow>
        \<exists>done. script (xs ! j) = done @ ops
           \<and> (\<forall>p \<in> set done. \<forall>c \<in> set (op_calls p). \<exists>h. (Worker j, h, c) \<in> set (trace w))"
    and none: "f = None \<Longrightarrow> \<forall>j < length xs. \<exists>ops. ws ! j = Running ops"
    and some: "\<And>e. f = Some e \<Longrightarrow> \<exists>j < length xs. ws ! j = Raised e"
    unfolding pool_done_def by simp_all
  show ?thesis
  proof (cases rule: pool_step_cases [of T i w ws f])
    case idle
    with inv st show ?thesis by simp
  next
    case (move p ps w' r)
    from move(1) len have i: "i < length xs" by simp
    let ?wi = "case r of None \<Rightarrow> Running ps | Some e \<Rightarrow> Raised e"
    let ?ws' = "ws[i := ?wi]"
    let ?f' = "case r of None \<Rightarrow> f | Some e \<Rightarrow> (case f of None \<Rightarrow> Some e | Some e0 \<Rightarrow> Some e0)"
    from step_trace_grows [OF move(3)] have grow: "set (trace w) \<subseteq> set (trace w')" .
    have 1: "length ?ws' = length xs" using len by simp
    have 2: "\<exists>done. script (xs ! j) = done @ ops
           \<and> (\<forall>q \<in> set done. \<forall>c \<in> set (op_calls q). \<exists>h. (Worker j, h, c) \<in> set (trace w'))"
      if j: "j < length xs" and r: "?ws' ! j = Running ops" for j ops
    proof (cases "j = i")
      case True
      with r move(1) have rn: "r = None" and ops: "ops = ps" by (cases r; simp)+
      from dn [OF i move(2)] obtain dne where dne: "script (xs ! i) = dne @ p # ps"
        "\<forall>q \<in> set dne. \<forall>c \<in> set (op_calls q). \<exists>h. (Worker i, h, c) \<in> set (trace w)"
        by blast
      have a: "script (xs ! j) = (dne @ [p]) @ ops" using dne(1) True ops by simp
      have b: "\<exists>h. (Worker j, h, c) \<in> set (trace w')"
        if "q \<in> set (dne @ [p])" "c \<in> set (op_calls q)" for q c
      proof (cases "q \<in> set dne")
        case qd: True
        with dne(2) that(2) obtain h where "(Worker i, h, c) \<in> set (trace w)" by blast
        with grow True have "(Worker j, h, c) \<in> set (trace w')" by auto
        then show ?thesis ..
      next
        case False
        with that(1) have "q = p" by simp
        with that(2) move(3) rn step_ok_logged [of T "Worker i" p w w' c] True
        show ?thesis by simp
      qed
      from a b show ?thesis by blast
    next
      case False
      with r have "ws ! j = Running ops" by simp
      from dn [OF j this] obtain dne where dne: "script (xs ! j) = dne @ ops"
        "\<forall>q \<in> set dne. \<forall>c \<in> set (op_calls q). \<exists>h. (Worker j, h, c) \<in> set (trace w)"
        by blast
      have "\<exists>h. (Worker j, h, c) \<in> set (trace w')"
        if "q \<in> set dne" "c \<in> set (op_calls q)" for q c
      proof -
        from dne(2) that obtain h where "(Worker j, h, c) \<in> set (trace w)" by blast
        with grow have "(Worker j, h, c) \<in> set (trace w')" by auto
        then show ?thesis ..
      qed
      with dne(1) show ?thesis by blast
    qed
    have 3: "\<forall>j < length xs. \<exists>ops. ?ws' ! j = Running ops" if n: "?f' = None"
    proof (intro allI impI)
      fix j assume j: "j < length xs"
      from n have rn: "r = None" and fn: "f = None" by (cases r; cases f; simp)+
      show "\<exists>ops. ?ws' ! j = Running ops"
      proof (cases "j = i")
        case True
        with rn move(1) show ?thesis by simp
      next
        case False
        with none [OF fn] j show ?thesis by simp
      qed
    qed
    have 4: "\<exists>j < length xs. ?ws' ! j = Raised e" if s: "?f' = Some e" for e
    proof (cases f)
      case (Some e0)
      with s have "e = e0" by (cases r) simp_all
      with some [OF Some] obtain k where k: "k < length xs" "ws ! k = Raised e" by blast
      with move(2) have "k \<noteq> i" by auto
      with k have "k < length xs \<and> ?ws' ! k = Raised e" by simp
      then show ?thesis by blast
    next
      case None
      with s have "r = Some e" by (cases r) simp_all
      with move(1) i have "i < length xs \<and> ?ws' ! i = Raised e" by simp
      then show ?thesis by blast
    qed
    have "pool_done script xs (w', ?ws', ?f')"
      unfolding pool_done_def fst_conv snd_conv
    proof (intro conjI allI impI)
      show "length ?ws' = length xs" by (rule 1)
      show "\<exists>done. script (xs ! j) = done @ ops
           \<and> (\<forall>q \<in> set done. \<forall>c \<in> set (op_calls q). \<exists>h. (Worker j, h, c) \<in> set (trace w'))"
        if "j < length xs" "?ws' ! j = Running ops" for j ops
        using that by (rule 2)
      show "\<exists>ops. ?ws' ! j = Running ops" if "?f' = None" "j < length xs" for j
        using 3 [OF that(1)] that(2) by blast
      show "\<exists>j < length xs. ?ws' ! j = Raised e" if "?f' = Some e" for e
        using that by (rule 4)
    qed
    with move(4) st show ?thesis by simp
  qed
qed

lemma run_sched_done:
  "pool_done script xs (run_sched T sched (w, map (\<lambda>x. Running (script x)) xs, None))"
proof (rule run_sched_invariant [where I = "pool_done script xs"])
  show "pool_done script xs (pool_step T i st)" if "pool_done script xs st" for i st
    using that by (rule pool_step_done)
  show "pool_done script xs (w, map (\<lambda>x. Running (script x)) xs, None)"
    unfolding pool_done_def fst_conv snd_conv
  proof (intro conjI allI impI)
    show "length (map (\<lambda>x. Running (script x)) xs) = length xs" by simp
    show "\<exists>done. script (xs ! i) = done @ ops
        \<and> (\<forall>p \<in> set done. \<forall>c \<in> set (op_calls p). \<exists>h. (Worker i, h, c) \<in> set (trace w))"
      if "i < length xs" "map (\<lambda>x. Running (script x)) xs ! i = Running ops" for i ops
    proof -
      from that have "script (xs ! i) = [] @ ops" by simp
      then show ?thesis by fastforce
    qed
    show "\<exists>ops. map (\<lambda>x. Running (script x)) xs ! i = Running ops" if "i < length xs" for i
      using that by simp
    show "\<exists>i < length xs. map (\<lambda>x. Running (script x)) xs ! i = Raised e"
      if "(None :: error option) = Some e" for e
      using that by simp
  qed
qed


lemma map_result_cases:
  "map_result (w, ws, f) =
     (case f of Some e \<Rightarrow> Raises e
      | None \<Rightarrow> if list_all (\<lambda>x. x = Running []) ws then Returns (map (\<lambda>x. ()) ws) else Blocked)"
  by (simp add: map_result_def)

lemma run_sched_append:
  "run_sched T (a @ b) st = run_sched T b (run_sched T a st)"
  by (induction a arbitrary: st) simp_all

lemma pool_step_first_stable:
  assumes "snd (snd st) = Some e"
  shows "snd (snd (pool_step T i st)) = Some e"
proof -
  obtain w ws f where st: "st = (w, ws, f)" by (cases st)
  with assms have f: "f = Some e" by simp
  show ?thesis
  proof (cases rule: pool_step_cases [of T i w ws f])
    case idle
    with st f show ?thesis by simp
  next
    case (move p ps w' r)
    with st f show ?thesis by (cases r) simp_all
  qed
qed

lemma run_sched_first_stable:
  "snd (snd st) = Some e \<Longrightarrow> snd (snd (run_sched T sched st)) = Some e"
  by (induction sched arbitrary: st) (simp_all add: pool_step_first_stable)

lemma pool_step_raises_first:
  assumes none: "snd (snd st) = None"
    and i: "i < length (fst (snd st))"
    and before: "\<forall>e'. fst (snd st) ! i \<noteq> Raised e'"
    and after: "fst (snd (pool_step T i st)) ! i = Raised e"
  shows "snd (snd (pool_step T i st)) = Some e"
proof -
  obtain w ws f where st: "st = (w, ws, f)" by (cases st)
  with none have f: "f = None" by simp
  show ?thesis
  proof (cases rule: pool_step_cases [of T i w ws f])
    case idle
    with st before after show ?thesis by simp
  next
    case (move p ps w' r)
    from move(4) st after move(1) have "(case r of None \<Rightarrow> Running ps | Some e \<Rightarrow> Raised e) = Raised e"
      by simp
    then have "r = Some e" by (cases r) simp_all
    with move(4) st f show ?thesis by simp
  qed
qed

lemma sum_remaining_update:
  assumes "i < length ws" and "remaining x < remaining (ws ! i)"
  shows "sum_list (map remaining (ws[i := x])) < sum_list (map remaining ws)"
proof -
  have "map remaining (ws[i := x]) = (map remaining ws)[i := remaining x]"
    by (simp add: map_update)
  moreover have "sum_list ((map remaining ws)[i := remaining x]) =
      sum_list (map remaining ws) + remaining x - (map remaining ws) ! i"
    using assms(1) by (simp add: sum_list_update)
  moreover have "(map remaining ws) ! i \<le> sum_list (map remaining ws)"
  proof -
    have "(map remaining ws) ! i \<in> set (map remaining ws)"
      using assms(1) by (intro nth_mem) simp
    then show ?thesis by (simp add: member_le_sum_list)
  qed
  ultimately show ?thesis using assms by simp
qed

lemma all_ended_or_running:
  assumes "sum_list (map remaining ws) = 0" and "i < length ws"
  shows "ws ! i = Running [] \<or> (\<exists>e. ws ! i = Raised e)"
proof -
  from assms(2) have "ws ! i \<in> set ws" by (rule nth_mem)
  with assms(1) have "remaining (ws ! i) = 0" by simp
  then show ?thesis by (cases "ws ! i") simp_all
qed

lemma some_running:
  assumes "sum_list (map remaining ws) \<noteq> 0"
  shows "\<exists>i p ps. i < length ws \<and> ws ! i = Running (p # ps)"
proof -
  from assms obtain x where x: "x \<in> set ws" "remaining x \<noteq> 0"
    by auto
  then obtain i where i: "i < length ws" "ws ! i = x" by (auto simp: in_set_conv_nth)
  from x(2) obtain p ps where "x = Running (p # ps)"
    by (cases x) (auto simp: neq_Nil_conv)
  with i show ?thesis by blast
qed

text \<open>Every state of the pool can be run on until every task has ended.\<close>

lemma run_to_end:
  "\<exists>s. \<forall>i < length (fst (snd (run_sched T s st))).
      fst (snd (run_sched T s st)) ! i = Running []
      \<or> (\<exists>e. fst (snd (run_sched T s st)) ! i = Raised e)"
proof (induction "sum_list (map remaining (fst (snd st)))" arbitrary: st rule: less_induct)
  case less
  obtain w ws f where st: "st = (w, ws, f)" by (cases st)
  show ?case
  proof (cases "sum_list (map remaining ws) = 0")
    case True
    have "\<forall>i < length (fst (snd (run_sched T [] st))).
      fst (snd (run_sched T [] st)) ! i = Running []
      \<or> (\<exists>e. fst (snd (run_sched T [] st)) ! i = Raised e)"
      using all_ended_or_running [OF True] st by simp
    then show ?thesis by (rule exI)
  next
    case False
    from some_running [OF False] obtain i p ps where i: "i < length ws" "ws ! i = Running (p # ps)"
      by blast
    have "sum_list (map remaining (fst (snd (pool_step T i st)))) < sum_list (map remaining ws)"
    proof -
      obtain w' r where sp: "step T (Worker i) p w = (w', r)" by (cases "step T (Worker i) p w")
      let ?x = "case r of None \<Rightarrow> Running ps | Some e \<Rightarrow> Raised e"
      from i sp st have "fst (snd (pool_step T i st)) = ws[i := ?x]"
        by (cases r) (simp_all add: pool_step.simps)
      moreover have "remaining ?x < remaining (ws ! i)"
        using i(2) by (cases r) simp_all
      ultimately show ?thesis using sum_remaining_update [OF i(1)] by simp
    qed
    with st have "sum_list (map remaining (fst (snd (pool_step T i st))))
        < sum_list (map remaining (fst (snd st)))" by simp
    from less [OF this] obtain s where s: "\<forall>j < length (fst (snd (run_sched T s (pool_step T i st)))).
      fst (snd (run_sched T s (pool_step T i st))) ! j = Running []
      \<or> (\<exists>e. fst (snd (run_sched T s (pool_step T i st))) ! j = Raised e)" by blast
    have "\<forall>j < length (fst (snd (run_sched T (i # s) st))).
      fst (snd (run_sched T (i # s) st)) ! j = Running []
      \<or> (\<exists>e. fst (snd (run_sched T (i # s) st)) ! j = Raised e)"
      using s by simp
    then show ?thesis by (rule exI)
  qed
qed


lemma map_result_first:
  "snd (snd st) = Some e \<Longrightarrow> map_result st = Raises e"
  by (cases st) (simp add: map_result_def)

lemma pool_done_none:
  assumes "pool_done script xs (w, ws, f)" and "\<forall>j < length xs. \<forall>e. ws ! j \<noteq> Raised e"
  shows "f = None"
proof (cases f)
  case None
  then show ?thesis .
next
  case (Some e)
  with assms(1) have "\<exists>j < length xs. ws ! j = Raised e"
    unfolding pool_done_def by simp
  with assms(2) show ?thesis by blast
qed

lemma pool_done_all_returned:
  assumes inv: "pool_done script xs (w, ws, f)" and all: "\<forall>i < length xs. ws ! i = Running []"
  shows "map_result (w, ws, f) = Returns (replicate (length xs) ())"
proof -
  from inv have len: "length ws = length xs" unfolding pool_done_def by simp
  from all have "\<forall>j < length xs. \<forall>e. ws ! j \<noteq> Raised e" by simp
  with inv have f: "f = None" by (rule pool_done_none)
  from all len have "list_all (\<lambda>x. x = Running []) ws" by (simp add: list_all_length)
  with f len show ?thesis by (simp add: map_result_def map_replicate_const)
qed

lemma pool_done_ended_not_blocked:
  assumes inv: "pool_done script xs (w, ws, f)"
    and ended: "\<forall>i < length ws. ws ! i = Running [] \<or> (\<exists>e. ws ! i = Raised e)"
  shows "map_result (w, ws, f) \<noteq> Blocked"
proof (cases f)
  case (Some e)
  then show ?thesis by (simp add: map_result_def)
next
  case None
  from inv have len: "length ws = length xs" unfolding pool_done_def by simp
  from inv None have run: "\<forall>i < length xs. \<exists>ops. ws ! i = Running ops"
    unfolding pool_done_def by simp
  have "ws ! i = Running []" if "i < length xs" for i
  proof -
    from run that obtain ops where "ws ! i = Running ops" by blast
    with ended that len show ?thesis by auto
  qed
  then have "\<forall>i < length xs. ws ! i = Running []" by simp
  from pool_done_all_returned [OF inv this] show ?thesis by simp
qed

text \<open>
  Claim C4, as amended. At every state of a run over the targets \<open>xs\<close> the pool holds
  exactly one task per entry of the list. When \<open>map\<close> returns, it returns one value per
  target, each the \<open>None\<close> of \<open>perform_command\<close> with no target identifier in it, and
  every task has run all its operations, down to its call of \<open>close\<close>; and when every
  task has returned, \<open>map\<close> does return these \<open>N\<close> values. A task that has ended with
  an exception makes \<open>map\<close> raise: the exception is not turned into a result, and the
  exception that \<open>map\<close> raises is the one of the task that failed first in the run,
  whatever the other tasks do before or after. Every run can be continued until all
  tasks have ended, and \<open>map\<close> has then returned or raised. For an empty list of targets
  \<open>main\<close> ends with the \<open>ValueError\<close> of the pool's constructor; for a list that is not
  empty \<open>main\<close> returns or raises as \<open>map\<close> does, and drops the list of results.
\<close>

theorem pool_map_outcomes:
  "(case run_sched T sched (w, map (\<lambda>x. Running (perform_command self x)) xs, None) of
      (w', ws, f) \<Rightarrow>
        length ws = length xs
        \<and> (\<forall>rs. map_result (w', ws, f) = Returns rs \<longrightarrow>
              rs = replicate (length xs) ()
              \<and> (\<forall>i < length xs. ws ! i = Running []
                    \<and> (\<exists>h. (Worker i, h, Close) \<in> set (trace w'))))
        \<and> ((\<forall>i < length xs. ws ! i = Running []) \<longrightarrow>
              map_result (w', ws, f) = Returns (replicate (length xs) ()))
        \<and> (\<forall>i e. i < length xs \<and> ws ! i = Raised e \<longrightarrow>
              (\<exists>e'. map_result (w', ws, f) = Raises e'))
        \<and> (\<forall>e. map_result (w', ws, f) = Raises e \<longrightarrow> (\<exists>i < length xs. ws ! i = Raised e)))
   \<and> (\<forall>s1 i s2 e. sched = s1 @ i # s2 \<and> i < length xs
          \<and> (\<forall>j < length xs. \<forall>e'.
                fst (snd (run_sched T s1
                  (w, map (\<lambda>x. Running (perform_command self x)) xs, None))) ! j \<noteq> Raised e')
          \<and> fst (snd (run_sched T (s1 @ [i])
                (w, map (\<lambda>x. Running (perform_command self x)) xs, None))) ! i = Raised e
        \<longrightarrow> map_result (run_sched T sched
              (w, map (\<lambda>x. Running (perform_command self x)) xs, None)) = Raises e)
   \<and> (\<exists>s. map_result (run_sched T (sched @ s)
              (w, map (\<lambda>x. Running (perform_command self x)) xs, None)) \<noteq> Blocked
         \<and> (\<forall>i < length xs.
               fst (snd (run_sched T (sched @ s)
                 (w, map (\<lambda>x. Running (perform_command self x)) xs, None))) ! i = Running []
               \<or> (\<exists>e. fst (snd (run_sched T (sched @ s)
                 (w, map (\<lambda>x. Running (perform_command self x)) xs, None))) ! i = Raised e)))
   \<and> (\<forall>a w1 nRF. parse_args argv = Inr a \<and> nRF5MultiFlash_init T fs a world0 = (w1, Inr nRF)
          \<and> snrs nRF = [] \<longrightarrow> main T fs argv sched = (w1, Raises ValueError))
   \<and> (\<forall>a w1 nRF. parse_args argv = Inr a \<and> nRF5MultiFlash_init T fs a world0 = (w1, Inr nRF)
          \<and> snrs nRF \<noteq> [] \<longrightarrow>
        snd (main T fs argv sched) =
          (case map_result (run_sched T sched
                  (w1, map (\<lambda>x. Running (perform_command nRF x)) (snrs nRF), None)) of
             Blocked \<Rightarrow> Blocked
           | Returns rs \<Rightarrow> Returns ()
           | Raises e \<Rightarrow> Raises e))"
proof -
  let ?start = "(w, map (\<lambda>x. Running (perform_command self x)) xs, None :: error option)"
  let ?st = "run_sched T sched ?start"
  have done_at: "pool_done (perform_command self) xs (run_sched T s ?start)" for s
    by (rule run_sched_done)
  obtain w' ws f where st: "?st = (w', ws, f)" by (cases ?st)
  from done_at [of sched] st
  have inv: "pool_done (perform_command self) xs (w', ws, f)" by simp
  then have len: "length ws = length xs"
    and dn: "\<And>j ops. j < length xs \<Longrightarrow> ws ! j = Running ops \<Longrightarrow>
        \<exists>done. perform_command self (xs ! j) = done @ ops
           \<and> (\<forall>p \<in> set done. \<forall>c \<in> set (op_calls p). \<exists>h. (Worker j, h, c) \<in> set (trace w'))"
    and none: "f = None \<Longrightarrow> \<forall>j < length xs. \<exists>ops. ws ! j = Running ops"
    and some: "\<And>e. f = Some e \<Longrightarrow> \<exists>j < length xs. ws ! j = Raised e"
    unfolding pool_done_def by simp_all
  have ret: "rs = replicate (length xs) ()
      \<and> (\<forall>i < length xs. ws ! i = Running [] \<and> (\<exists>h. (Worker i, h, Close) \<in> set (trace w')))"
    if r: "map_result (w', ws, f) = Returns rs" for rs
  proof -
    from r have fn: "f = None" and all: "list_all (\<lambda>x. x = Running []) ws"
      and rs: "rs = map (\<lambda>x. ()) ws"
      unfolding map_result_cases by (cases f; simp split: if_splits)+
    from rs len have 1: "rs = replicate (length xs) ()" by (simp add: map_replicate_const)
    have 2: "ws ! i = Running [] \<and> (\<exists>h. (Worker i, h, Close) \<in> set (trace w'))"
      if i: "i < length xs" for i
    proof -
      from all i len have wi: "ws ! i = Running []" by (simp add: list_all_length)
      from dn [OF i wi] have "\<forall>p \<in> set (perform_command self (xs ! i)).
          \<forall>c \<in> set (op_calls p). \<exists>h. (Worker i, h, c) \<in> set (trace w')" by auto
      moreover have "Inst_call (xs ! i) Close \<in> set (perform_command self (xs ! i))"
        by (simp add: perform_command_def cleanup_def)
      ultimately have "\<exists>h. (Worker i, h, Close) \<in> set (trace w')" by fastforce
      with wi show ?thesis by simp
    qed
    from 1 2 show ?thesis by blast
  qed
  have fin: "map_result (w', ws, f) = Returns (replicate (length xs) ())"
    if "\<forall>i < length xs. ws ! i = Running []"
    using inv that by (rule pool_done_all_returned)
  have rai: "\<exists>e'. map_result (w', ws, f) = Raises e'"
    if "i < length xs \<and> ws ! i = Raised e" for i e
  proof (cases f)
    case None
    from none [OF None] that show ?thesis by auto
  next
    case (Some e0)
    then show ?thesis by (simp add: map_result_cases)
  qed
  have own: "\<exists>i < length xs. ws ! i = Raised e" if "map_result (w', ws, f) = Raises e" for e
  proof -
    from that have "f = Some e"
      unfolding map_result_cases by (cases f) (simp_all split: if_splits)
    then show ?thesis by (rule some)
  qed
  have A: "case ?st of (w', ws, f) \<Rightarrow>
        length ws = length xs
        \<and> (\<forall>rs. map_result (w', ws, f) = Returns rs \<longrightarrow>
              rs = replicate (length xs) ()
              \<and> (\<forall>i < length xs. ws ! i = Running []
                    \<and> (\<exists>h. (Worker i, h, Close) \<in> set (trace w'))))
        \<and> ((\<forall>i < length xs. ws ! i = Running []) \<longrightarrow>
              map_result (w', ws, f) = Returns (replicate (length xs) ()))
        \<and> (\<forall>i e. i < length xs \<and> ws ! i = Raised e \<longrightarrow>
              (\<exists>e'. map_result (w', ws, f) = Raises e'))
        \<and> (\<forall>e. map_result (w', ws, f) = Raises e \<longrightarrow> (\<exists>i < length xs. ws ! i = Raised e))"
    unfolding st prod.case using len ret fin rai own by blast
  have B: "map_result ?st = Raises e"
    if h: "sched = s1 @ i # s2 \<and> i < length xs
          \<and> (\<forall>j < length xs. \<forall>e'. fst (snd (run_sched T s1 ?start)) ! j \<noteq> Raised e')
          \<and> fst (snd (run_sched T (s1 @ [i]) ?start)) ! i = Raised e" for s1 i s2 e
  proof -
    obtain w1 ws1 f1 where st1: "run_sched T s1 ?start = (w1, ws1, f1)"
      by (cases "run_sched T s1 ?start")
    from done_at [of s1] st1 have inv1: "pool_done (perform_command self) xs (w1, ws1, f1)"
      by simp
    then have len1: "length ws1 = length xs" unfolding pool_done_def by simp
    from h st1 have nr: "\<forall>j < length xs. \<forall>e'. ws1 ! j \<noteq> Raised e'" by simp
    with inv1 have f1: "f1 = None" by (rule pool_done_none)
    have step: "run_sched T (s1 @ [i]) ?start = pool_step T i (w1, ws1, f1)"
      by (simp add: run_sched_append st1)
    have "snd (snd (pool_step T i (w1, ws1, f1))) = Some e"
    proof (rule pool_step_raises_first)
      show "snd (snd (w1, ws1, f1)) = None" using f1 by simp
      show "i < length (fst (snd (w1, ws1, f1)))" using h len1 by simp
      show "\<forall>e'. fst (snd (w1, ws1, f1)) ! i \<noteq> Raised e'" using nr h by simp
      show "fst (snd (pool_step T i (w1, ws1, f1))) ! i = Raised e" using h step by simp
    qed
    then have "snd (snd (run_sched T s2 (pool_step T i (w1, ws1, f1)))) = Some e"
      by (rule run_sched_first_stable)
    moreover from h have "?st = run_sched T s2 (pool_step T i (w1, ws1, f1))"
      using run_sched_append [of T "s1 @ [i]" s2 ?start] step by simp
    ultimately have "snd (snd ?st) = Some e" by simp
    then show ?thesis by (rule map_result_first)
  qed
  have C: "\<exists>s. map_result (run_sched T (sched @ s) ?start) \<noteq> Blocked
         \<and> (\<forall>i < length xs. fst (snd (run_sched T (sched @ s) ?start)) ! i = Running []
               \<or> (\<exists>e. fst (snd (run_sched T (sched @ s) ?start)) ! i = Raised e))"
  proof -
    from run_to_end [of T ?st] obtain s where s: "\<forall>i < length (fst (snd (run_sched T s ?st))).
      fst (snd (run_sched T s ?st)) ! i = Running []
      \<or> (\<exists>e. fst (snd (run_sched T s ?st)) ! i = Raised e)" by blast
    have app: "run_sched T (sched @ s) ?start = run_sched T s ?st" by (rule run_sched_append)
    obtain w2 ws2 f2 where st2: "run_sched T s ?st = (w2, ws2, f2)"
      by (cases "run_sched T s ?st")
    from done_at [of "sched @ s"] app st2
    have inv2: "pool_done (perform_command self) xs (w2, ws2, f2)" by simp
    then have len2: "length ws2 = length xs" unfolding pool_done_def by simp
    from s st2 have e2: "\<forall>i < length ws2. ws2 ! i = Running [] \<or> (\<exists>e. ws2 ! i = Raised e)"
      by simp
    from pool_done_ended_not_blocked [OF inv2 e2]
    have "map_result (run_sched T (sched @ s) ?start) \<noteq> Blocked" using app st2 by simp
    moreover from e2 len2 have "\<forall>i < length xs.
        fst (snd (run_sched T (sched @ s) ?start)) ! i = Running []
        \<or> (\<exists>e. fst (snd (run_sched T (sched @ s) ?start)) ! i = Raised e)"
      using app st2 by simp
    ultimately show ?thesis by blast
  qed
  have D: "main T fs argv sched = (w1, Raises ValueError)"
    if "parse_args argv = Inr a \<and> nRF5MultiFlash_init T fs a world0 = (w1, Inr nRF)
          \<and> snrs nRF = []" for a w1 nRF
    using that by (simp add: main_def)
  have E: "snd (main T fs argv sched) =
          (case map_result (run_sched T sched
                  (w1, map (\<lambda>x. Running (perform_command nRF x)) (snrs nRF), None)) of
             Blocked \<Rightarrow> Blocked
           | Returns rs \<Rightarrow> Returns ()
           | Raises e \<Rightarrow> Raises e)"
    if "parse_args argv = Inr a \<and> nRF5MultiFlash_init T fs a world0 = (w1, Inr nRF)
          \<and> snrs nRF \<noteq> []" for a w1 nRF
    using that
    by (cases "run_sched T sched (w1, map (\<lambda>x. Running (perform_command nRF x)) (snrs nRF), None)")
      (simp add: main_def pool_map_def split: outcome.splits)
  show ?thesis
  proof (intro conjI allI impI)
    show "case ?st of (w', ws, f) \<Rightarrow>
        length ws = length xs
        \<and> (\<forall>rs. map_result (w', ws, f) = Returns rs \<longrightarrow>
              rs = replicate (length xs) ()
              \<and> (\<forall>i < length xs. ws ! i = Running []
                    \<and> (\<exists>h. (Worker i, h, Close) \<in> set (trace w'))))
        \<and> ((\<forall>i < length xs. ws ! i = Running []) \<longrightarrow>
              map_result (w', ws, f) = Returns (replicate (length xs) ()))
        \<and> (\<forall>i e. i < length xs \<and> ws ! i = Raised e \<longrightarrow>
              (\<exists>e'. map_result (w', ws, f) = Raises e'))
        \<and> (\<forall>e. map_result (w', ws, f) = Raises e \<longrightarrow> (\<exists>i < length xs. ws ! i = Raised e))"
      by (rule A)
    show "map_result ?st = Raises e"
      if "sched = s1 @ i # s2 \<and> i < length xs
          \<and> (\<forall>j < length xs. \<forall>e'. fst (snd (run_sched T s1 ?start)) ! j \<noteq> Raised e')
          \<and> fst (snd (run_sched T (s1 @ [i]) ?start)) ! i = Raised e" for s1 i s2 e
      using that by (rule B)
    show "\<exists>s. map_result (run_sched T (sched @ s) ?start) \<noteq> Blocked
         \<and> (\<forall>i < length xs. fst (snd (run_sched T (sched @ s) ?start)) ! i = Running []
               \<or> (\<exists>e. fst (snd (run_sched T (sched @ s) ?start)) ! i = Raised e))"
      by (rule C)
    show "main T fs argv sched = (w1, Raises ValueError)"
      if "parse_args argv = Inr a \<and> nRF5MultiFlash_init T fs a world0 = (w1, Inr nRF)
          \<and> snrs nRF = []" for a w1 nRF
      using that by (rule D)
    show "snd (main T fs argv sched) =
          (case map_result (run_sched T sched
                  (w1, map (\<lambda>x. Running (perform_command nRF x)) (snrs nRF), None)) of
             Blocked \<Rightarrow> Blocked
           | Returns rs \<Rightarrow> Returns ()
           | Raises e \<Rightarrow> Raises e)"
      if "parse_args argv = Inr a \<and> nRF5MultiFlash_init T fs a world0 = (w1, Inr nRF)
          \<and> snrs nRF \<noteq> []" for a w1 nRF
      using that by (rule E)
  qed
qed

subsection \<open>Concrete runs\<close>

lemma perform_command_plain_snrs:
  "perform_command (nRF_plain\<lparr>snrs := ns\<rparr>) d =
     [New_instance d ''NRF51'', Inst_call d Open, Inst_call d (Connect_to_emu_with_snr d),
      Inst_call d (Write 0x1000 [0xFF, 0xFF, 0xFF, 0xFF] True),
      Inst_call d (Write 0x2000 [0xFF, 0xFF] True),
      Inst_call d Disconnect_from_emu, Inst_call d Close]"
  by (simp add: perform_command_def connect_to_device_def program_device_def
      program_segment_def cleanup_def nRF_plain_def hex_two_segments_def Let_def
      eval_nat_numeral)

lemma perform_command_plain_any:
  "perform_command nRF_plain d =
     [New_instance d ''NRF51'', Inst_call d Open, Inst_call d (Connect_to_emu_with_snr d),
      Inst_call d (Write 0x1000 [0xFF, 0xFF, 0xFF, 0xFF] True),
      Inst_call d (Write 0x2000 [0xFF, 0xFF] True),
      Inst_call d Disconnect_from_emu, Inst_call d Close]"
proof -
  have "nRF_plain = nRF_plain\<lparr>snrs := [7]\<rparr>" by (simp add: nRF_plain_def)
  then show ?thesis using perform_command_plain_snrs [of "[7]" d] by simp
qed

lemma main_plain:
  assumes "ns \<noteq> []"
  shows "main T files0 [Opt_file ''app.hex'', Opt_snrs ns] sched =
     (case pool_map T sched (perform_command (nRF_plain\<lparr>snrs := ns\<rparr>)) ns world0 of
        (w2, Blocked) \<Rightarrow> (w2, Blocked)
      | (w2, Returns rs) \<Rightarrow> (w2, Returns ())
      | (w2, Raises e) \<Rightarrow> (w2, Raises e))"
  using assms
  by (simp add: main_def parse_args_def group_conflict_def erase_before_flash_group_def
      reset_group_def nRF5MultiFlash_init_def resolve_snrs_def files0_def page_size_of_def
      py_is_def Let_def nRF_plain_def world0_def)

text \<open>
  Claim C4 as stated fails: for the targets \<open>[1, 2, 3]\<close>, with the first and the third
  worker run to their end without an error and the second worker's write raising, the
  run yields no outcome for any target: \<open>main\<close> ends with the exception of the second
  worker, whose handle is left open.
\<close>

theorem worker_error_aborts_run_counterexample:
  "main transport_second_fails files0 [Opt_file ''app.hex'', Opt_snrs [1, 2, 3]]
     [0, 0, 0, 0, 0, 0, 0, 2, 2, 2, 2, 2, 2, 2, 1, 1, 1, 1] =
     (\<lparr>trace =
        [(Worker 0, 0, Construct ''NRF51''), (Worker 0, 0, Open),
         (Worker 0, 0, Connect_to_emu_with_snr 1),
         (Worker 0, 0, Write 0x1000 [0xFF, 0xFF, 0xFF, 0xFF] True),
         (Worker 0, 0, Write 0x2000 [0xFF, 0xFF] True),
         (Worker 0, 0, Disconnect_from_emu), (Worker 0, 0, Close),
         (Worker 2, 1, Construct ''NRF51''), (Worker 2, 1, Open),
         (Worker 2, 1, Connect_to_emu_with_snr 3),
         (Worker 2, 1, Write 0x1000 [0xFF, 0xFF, 0xFF, 0xFF] True),
         (Worker 2, 1, Write 0x2000 [0xFF, 0xFF] True),
         (Worker 2, 1, Disconnect_from_emu), (Worker 2, 1, Close),
         (Worker 1, 2, Construct ''NRF51''), (Worker 1, 2, Open),
         (Worker 1, 2, Connect_to_emu_with_snr 2),
         (Worker 1, 2, Write 0x1000 [0xFF, 0xFF, 0xFF, 0xFF] True)],
       next_handle = 3, nRF5_instances = [1 \<mapsto> 0, 3 \<mapsto> 1, 2 \<mapsto> 2]\<rparr>,
      Raises APIError)"
  by (simp add: main_plain pool_map_def perform_command_plain_snrs pool_step.simps
      new_MultiAPI_def api_call_def transport_second_fails_def world0_def Let_def
      map_result_def numeral_2_eq_2)

theorem pool_map_outcomes_witness:
  "map_result (run_sched transport_ok [0, 1, 0, 1, 0, 1, 0, 1, 0, 1, 0, 1, 0, 1]
      (world0, map (\<lambda>x. Running (perform_command nRF_plain x)) [7, 8], None))
     = Returns [(), ()]
   \<and> fst (snd (run_sched transport_second_fails [1, 1, 1]
      (world0, map (\<lambda>x. Running (perform_command nRF_plain x)) [7, 8], None))) =
       [Running (perform_command nRF_plain 7),
        Running [Inst_call 8 (Write 0x1000 [0xFF, 0xFF, 0xFF, 0xFF] True),
          Inst_call 8 (Write 0x2000 [0xFF, 0xFF] True),
          Inst_call 8 Disconnect_from_emu, Inst_call 8 Close]]
   \<and> fst (snd (run_sched transport_second_fails ([1, 1, 1] @ [1])
      (world0, map (\<lambda>x. Running (perform_command nRF_plain x)) [7, 8], None))) ! 1
       = Raised APIError
   \<and> map_result (run_sched transport_second_fails ([1, 1, 1] @ 1 # [0, 0, 0, 0, 0, 0, 0])
      (world0, map (\<lambda>x. Running (perform_command nRF_plain x)) [7, 8], None))
     = Raises APIError
   \<and> main transport_no_probes files0 [Opt_file ''app.hex''] [] =
       (\<lparr>trace = [(Main_thread, 0, Construct ''NRF51''), (Main_thread, 0, Open),
          (Main_thread, 0, Enum_emu_snr), (Main_thread, 0, Close)],
         next_handle = 1, nRF5_instances = Map.empty\<rparr>, Raises ValueError)"
proof -
  let ?start = "(world0, map (\<lambda>x. Running (perform_command nRF_plain x)) [7, 8 :: int],
      None :: error option)"
  have all: "fst (snd (run_sched transport_ok [0, 1, 0, 1, 0, 1, 0, 1, 0, 1, 0, 1, 0, 1] ?start))
      = [Running [], Running []]"
    by (simp add: perform_command_plain_any pool_step.simps
        new_MultiAPI_def api_call_def transport_ok_def world0_def Let_def)
  have "map_result (run_sched transport_ok [0, 1, 0, 1, 0, 1, 0, 1, 0, 1, 0, 1, 0, 1] ?start)
      = Returns (replicate (length [7, 8 :: int]) ())"
  proof -
    obtain w' ws f where st:
      "run_sched transport_ok [0, 1, 0, 1, 0, 1, 0, 1, 0, 1, 0, 1, 0, 1] ?start = (w', ws, f)"
      by (cases "run_sched transport_ok [0, 1, 0, 1, 0, 1, 0, 1, 0, 1, 0, 1, 0, 1] ?start")
    with all have ws: "ws = [Running [], Running []]" by simp
    then have fin: "\<forall>i < length [7, 8 :: int]. ws ! i = Running []"
      by (simp add: less_Suc_eq numeral_2_eq_2)
    from pool_map_outcomes [where T = transport_ok and w = world0 and self = nRF_plain
        and xs = "[7, 8]" and sched = "[0, 1, 0, 1, 0, 1, 0, 1, 0, 1, 0, 1, 0, 1]",
        THEN conjunct1, unfolded st prod.case, THEN conjunct2, THEN conjunct2, THEN conjunct1]
    have "(\<forall>i < length [7, 8 :: int]. ws ! i = Running []) \<longrightarrow>
        map_result (w', ws, f) = Returns (replicate (length [7, 8 :: int]) ())" .
    with fin st show ?thesis by simp
  qed
  then have 1: "map_result (run_sched transport_ok [0, 1, 0, 1, 0, 1, 0, 1, 0, 1, 0, 1, 0, 1] ?start)
      = Returns [(), ()]"
    by (simp add: numeral_2_eq_2)
  have 2: "fst (snd (run_sched transport_second_fails [1, 1, 1] ?start)) =
       [Running (perform_command nRF_plain 7),
        Running [Inst_call 8 (Write 0x1000 [0xFF, 0xFF, 0xFF, 0xFF] True),
          Inst_call 8 (Write 0x2000 [0xFF, 0xFF] True),
          Inst_call 8 Disconnect_from_emu, Inst_call 8 Close]]"
    by (simp add: perform_command_plain_any pool_step.simps
        new_MultiAPI_def api_call_def transport_second_fails_def world0_def Let_def)
  have 3: "fst (snd (run_sched transport_second_fails ([1, 1, 1] @ [1]) ?start)) ! 1
       = Raised APIError"
    by (simp add: perform_command_plain_any pool_step.simps
        new_MultiAPI_def api_call_def transport_second_fails_def world0_def Let_def)
  have none: "\<forall>j < length [7, 8 :: int]. \<forall>e'.
      fst (snd (run_sched transport_second_fails [1, 1, 1] ?start)) ! j \<noteq> Raised e'"
    unfolding 2 by (simp add: less_Suc_eq numeral_2_eq_2)
  from pool_map_outcomes [where T = transport_second_fails and w = world0 and self = nRF_plain
      and xs = "[7, 8]" and sched = "[1, 1, 1] @ 1 # [0, 0, 0, 0, 0, 0, 0]",
      THEN conjunct2, THEN conjunct1]
  have "\<forall>s1 i s2 e. [1, 1, 1] @ 1 # [0, 0, 0, 0, 0, 0, 0] = s1 @ i # s2 \<and> i < length [7, 8 :: int]
          \<and> (\<forall>j < length [7, 8 :: int]. \<forall>e'.
                fst (snd (run_sched transport_second_fails s1 ?start)) ! j \<noteq> Raised e')
          \<and> fst (snd (run_sched transport_second_fails (s1 @ [i]) ?start)) ! i = Raised e
        \<longrightarrow> map_result (run_sched transport_second_fails
              ([1, 1, 1] @ 1 # [0, 0, 0, 0, 0, 0, 0]) ?start) = Raises e" .
  from this [rule_format, of "[1, 1, 1]" 1 "[0, 0, 0, 0, 0, 0, 0]" APIError] none 3
  have 4: "map_result (run_sched transport_second_fails
      ([1, 1, 1] @ 1 # [0, 0, 0, 0, 0, 0, 0]) ?start) = Raises APIError"
    by simp
  have a: "parse_args [Opt_file ''app.hex''] = Inr \<lparr>args_eraseall = False, args_family = None,
      args_file = ''app.hex'', args_sectorserase = False, args_sectorsanduicrerase = False,
      args_snrs = None, args_systemreset = False, args_verify = False\<rparr>"
    by (simp add: parse_args_def group_conflict_def erase_before_flash_group_def reset_group_def)
  have i: "nRF5MultiFlash_init transport_no_probes files0 \<lparr>args_eraseall = False, args_family = None,
      args_file = ''app.hex'', args_sectorserase = False, args_sectorsanduicrerase = False,
      args_snrs = None, args_systemreset = False, args_verify = False\<rparr> world0 =
      (\<lparr>trace = [(Main_thread, 0, Construct ''NRF51''), (Main_thread, 0, Open),
          (Main_thread, 0, Enum_emu_snr), (Main_thread, 0, Close)],
         next_handle = 1, nRF5_instances = Map.empty\<rparr>, Inr (nRF_plain\<lparr>snrs := []\<rparr>))"
    by (simp add: nRF5MultiFlash_init_def resolve_snrs_def enum_snrs_def new_MultiAPI_def
        api_call_def transport_no_probes_def world0_def Let_def files0_def page_size_of_def
        py_is_def nRF_plain_def)
  from pool_map_outcomes [where T = transport_no_probes and fs = files0
      and argv = "[Opt_file ''app.hex'']" and sched = "[]" and xs = "[]" and w = world0
      and self = nRF_plain] a i
  have 5: "main transport_no_probes files0 [Opt_file ''app.hex''] [] =
       (\<lparr>trace = [(Main_thread, 0, Construct ''NRF51''), (Main_thread, 0, Open),
          (Main_thread, 0, Enum_emu_snr), (Main_thread, 0, Close)],
         next_handle = 1, nRF5_instances = Map.empty\<rparr>, Raises ValueError)"
    by simp
  from 1 2 3 4 5 show ?thesis by simp
qed

end
